theory Spec2Isabelle
  imports Complex_Main
begin

section \<open>Go strings\<close>

text \<open>
  A Go \<open>string\<close> is a sequence of bytes; it is modelled as a \<open>char list\<close>, one \<open>char\<close>
  per byte.  Text outside ASCII is written as its UTF-8 bytes.
\<close>

abbreviation DQ :: char where "DQ \<equiv> CHR 0x22"
abbreviation BS :: char where "BS \<equiv> CHR 0x5C"
abbreviation NL :: char where "NL \<equiv> CHR 0x0A"

definition HasPrefix :: "string \<Rightarrow> string \<Rightarrow> bool" where
  "HasPrefix s p = (take (length p) s = p)"

definition HasSuffix :: "string \<Rightarrow> string \<Rightarrow> bool" where
  "HasSuffix s p = (length p \<le> length s \<and> drop (length s - length p) s = p)"

text \<open>
  \<open>strings.ReplaceAll(s, old, new)\<close>: the non-overlapping occurrences of \<open>old\<close> are
  replaced from the left.  The program only passes non-empty patterns; for an empty one
  (where Go inserts \<open>new\<close> around every code point) the model returns \<open>s\<close>.
\<close>

function ReplaceAll :: "string \<Rightarrow> string \<Rightarrow> string \<Rightarrow> string" where
  "ReplaceAll s old new =
     (if s = [] \<or> old = [] then s
      else if HasPrefix s old then new @ ReplaceAll (drop (length old) s) old new
      else hd s # ReplaceAll (tl s) old new)"
  by pat_completeness auto
termination
  by (relation "measure (\<lambda>(s, old, new). length s)") auto

declare ReplaceAll.simps [simp del]

section \<open>internal/typst/escape.go\<close>

definition EscapeString :: "string \<Rightarrow> string" where
  "EscapeString s =
     (let s1 = ReplaceAll s [BS] [BS, BS];
          s2 = ReplaceAll s1 [DQ] [BS, DQ];
          s3 = ReplaceAll s2 ''#'' [BS, CHR ''#'']
      in s3)"

definition EscapeContent :: "string \<Rightarrow> string" where
  "EscapeContent s =
     (let s1 = ReplaceAll s [BS] [BS, BS];
          s2 = ReplaceAll s1 '']'' [BS, CHR '']''];
          s3 = ReplaceAll s2 ''#'' [BS, CHR ''#'']
      in s3)"

text \<open>
  Reading an escaped text back: a backslash makes the byte after it literal.  This is
  the inverse used to show that escaping loses nothing.
\<close>

fun unescape :: "string \<Rightarrow> string" where
  "unescape [] = []"
| "unescape [c] = [c]"
| "unescape (c # d # cs) = (if c = BS then d # unescape cs else c # unescape (d # cs))"

text \<open>The net effect of either escaper on one byte (\<open>q\<close> is the quote byte).\<close>

definition esc_byte :: "char \<Rightarrow> char \<Rightarrow> string" where
  "esc_byte q x = (if x = BS \<or> x = q \<or> x = CHR ''#'' then [BS, x] else [x])"

section \<open>UTF-8, as Go's \<open>unicode/utf8\<close> reads and writes it\<close>

text \<open>
  A code point (Go's \<open>rune\<close>) is a natural number.  \<open>DecodeRuneInString\<close> returns
  the first code point of a byte string and the number of bytes it occupies; a byte that
  does not start a well-formed sequence decodes to \<open>RuneError\<close> (U+FFFD) of width 1.
  The conversion \<open>[]rune(s)\<close>, a \<open>range\<close> loop over a string and the \<open>regexp\<close>
  engine all read their input through it.
\<close>

type_synonym rune = nat

definition RuneError :: rune where "RuneError = 0xFFFD"

definition byte_in :: "nat \<Rightarrow> nat \<Rightarrow> char \<Rightarrow> bool" where
  "byte_in lo hi c = (lo \<le> of_char c \<and> of_char c \<le> (hi::nat))"

fun DecodeRuneInString :: "string \<Rightarrow> rune \<times> nat" where
  "DecodeRuneInString [] = (RuneError, 0)"
| "DecodeRuneInString (c # cs) =
     (let b0 = (of_char c :: nat) in
      if b0 < 0x80 then (b0, 1)
      else if b0 < 0xC2 then (RuneError, 1)
      else if b0 < 0xE0 then
        (case cs of
           c1 # _ \<Rightarrow>
             if byte_in 0x80 0xBF c1
             then ((b0 - 0xC0) * 64 + (of_char c1 - 0x80), 2)
             else (RuneError, 1)
         | _ \<Rightarrow> (RuneError, 1))
      else if b0 < 0xF0 then
        (case cs of
           c1 # c2 # _ \<Rightarrow>
             if byte_in (if b0 = 0xE0 then 0xA0 else 0x80) (if b0 = 0xED then 0x9F else 0xBF) c1
                \<and> byte_in 0x80 0xBF c2
             then ((b0 - 0xE0) * 4096 + (of_char c1 - 0x80) * 64 + (of_char c2 - 0x80), 3)
             else (RuneError, 1)
         | _ \<Rightarrow> (RuneError, 1))
      else if b0 < 0xF5 then
        (case cs of
           c1 # c2 # c3 # _ \<Rightarrow>
             if byte_in (if b0 = 0xF0 then 0x90 else 0x80) (if b0 = 0xF4 then 0x8F else 0xBF) c1
                \<and> byte_in 0x80 0xBF c2 \<and> byte_in 0x80 0xBF c3
             then ((b0 - 0xF0) * 262144 + (of_char c1 - 0x80) * 4096
                   + (of_char c2 - 0x80) * 64 + (of_char c3 - 0x80), 4)
             else (RuneError, 1)
         | _ \<Rightarrow> (RuneError, 1))
      else (RuneError, 1))"

lemma DecodeRune_width: "s \<noteq> [] \<Longrightarrow> 0 < snd (DecodeRuneInString s)"
  by (cases s) (auto simp: Let_def split: list.splits)

declare DecodeRuneInString.simps [simp del]

text \<open>The code points of a whole string, each with its width in the source.\<close>

function decode :: "string \<Rightarrow> (rune \<times> nat) list" where
  "decode s = (if s = [] then [] else DecodeRuneInString s # decode (drop (snd (DecodeRuneInString s)) s))"
  by pat_completeness auto
termination
  by (relation "measure length") (auto simp: DecodeRune_width)

declare decode.simps [simp del]

text \<open>
  \<open>utf8.AppendRune\<close>: a surrogate or a value above U+10FFFF is written as U+FFFD.
\<close>

definition EncodeRune :: "rune \<Rightarrow> string" where
  "EncodeRune r =
     (if r < 0x80 then [char_of r]
      else if r < 0x800 then [char_of (0xC0 + r div 64), char_of (0x80 + r mod 64)]
      else if 0x10FFFF < r \<or> (0xD800 \<le> r \<and> r \<le> 0xDFFF) then [CHR 0xEF, CHR 0xBF, CHR 0xBD]
      else if r < 0x10000 then
        [char_of (0xE0 + r div 4096), char_of (0x80 + (r div 64) mod 64), char_of (0x80 + r mod 64)]
      else
        [char_of (0xF0 + r div 262144), char_of (0x80 + (r div 4096) mod 64),
         char_of (0x80 + (r div 64) mod 64), char_of (0x80 + r mod 64)])"

text \<open>The Unicode scalar values: what a well-formed UTF-8 text encodes.\<close>

definition valid_rune :: "rune \<Rightarrow> bool" where
  "valid_rune r = (r \<le> 0x10FFFF \<and> \<not> (0xD800 \<le> r \<and> r \<le> 0xDFFF))"

text \<open>
  \<open>string(runes)\<close> and \<open>strings.Builder.WriteRune\<close>: the concatenated encodings.
\<close>

definition encode_runes :: "rune list \<Rightarrow> string" where
  "encode_runes rs = concat (map EncodeRune rs)"

section \<open>Punctuation conversion (\<open>convertPunctuation\<close>)\<close>

text \<open>
  \<open>unicode.IsDigit\<close>: up to U+00FF only the ASCII digits; above, membership of the
  Unicode table \<open>Nd\<close> of the Go release, which is the parameter \<open>tbl\<close>.
\<close>

definition IsDigit :: "(rune \<Rightarrow> bool) \<Rightarrow> rune \<Rightarrow> bool" where
  "IsDigit tbl r = (if r \<le> 0xFF then 0x30 \<le> r \<and> r \<le> 0x39 else tbl r)"

text \<open>
  The two patterns.  A pattern is modelled by its match at the start of the remaining
  input, as the number of code points it consumes (\<open>None\<close>: no match here).  The class
  \<open>\s\<close> of Go's \<open>regexp\<close> is tab, line feed, form feed, carriage return and space;
  \<open>[^\s]+\<close> and \<open>[^}]*\<close> are greedy, and nothing after them can make them give
  code points back except the closing brace.

  \<open>urlPattern = https?://[^\s]+|ftp://[^\s]+|mailto:[^\s]+\<close>,
  \<open>markerPattern = \{[^}]*\}\<close>.
\<close>

definition re_space :: "rune \<Rightarrow> bool" where
  "re_space r = (r = 0x09 \<or> r = 0x0A \<or> r = 0x0C \<or> r = 0x0D \<or> r = 0x20)"

definition runes_of_ascii :: "string \<Rightarrow> rune list" where
  "runes_of_ascii s = map of_char s"

definition match_scheme :: "string \<Rightarrow> rune list \<Rightarrow> nat option" where
  "match_scheme scheme rs =
     (let l = runes_of_ascii scheme in
      if take (length l) rs = l
      then (let n = length (takeWhile (\<lambda>r. \<not> re_space r) (drop (length l) rs))
            in if 0 < n then Some (length l + n) else None)
      else None)"

definition urlPattern :: "rune list \<Rightarrow> nat option" where
  "urlPattern rs =
     (case match_scheme ''https://'' rs of Some n \<Rightarrow> Some n | None \<Rightarrow>
      (case match_scheme ''http://'' rs of Some n \<Rightarrow> Some n | None \<Rightarrow>
      (case match_scheme ''ftp://'' rs of Some n \<Rightarrow> Some n | None \<Rightarrow>
       match_scheme ''mailto:'' rs)))"

definition markerPattern :: "rune list \<Rightarrow> nat option" where
  "markerPattern rs =
     (case rs of
        [] \<Rightarrow> None
      | r # rest \<Rightarrow>
          if r = 0x7B
          then (let n = length (takeWhile (\<lambda>r. r \<noteq> 0x7D) rest)
                in if n < length rest then Some (n + 2) else None)
          else None)"

text \<open>
  \<open>FindAllStringIndex(text, -1)\<close>: the leftmost matches, none overlapping, as pairs of
  byte offsets.  The input is the decoded text; \<open>pos\<close> is the byte offset of its first
  code point.  Where the pattern does not match, the search moves on by one code point.
  (Neither pattern matches the empty string; a match of length 0 is treated as none.)
\<close>

function FindAllStringIndex ::
  "(rune list \<Rightarrow> nat option) \<Rightarrow> nat \<Rightarrow> (rune \<times> nat) list \<Rightarrow> (nat \<times> nat) list" where
  "FindAllStringIndex re pos ds =
     (if ds = [] then []
      else (let n = (case re (map fst ds) of None \<Rightarrow> 0 | Some n \<Rightarrow> n) in
        if 0 < n
        then (let e = pos + sum_list (map snd (take n ds))
              in (pos, e) # FindAllStringIndex re e (drop n ds))
        else FindAllStringIndex re (pos + snd (hd ds)) (tl ds)))"
  by pat_completeness auto
termination
proof (relation "measure (\<lambda>(re, pos, ds). length ds)")
  show "wf (measure (\<lambda>(re, pos, ds). length ds))" by simp
next
  fix re :: "rune list \<Rightarrow> nat option" and pos :: nat and ds :: "(rune \<times> nat) list" and n e :: nat
  assume "ds \<noteq> []" "0 < n"
  then show "((re, e, drop n ds), (re, pos, ds)) \<in> measure (\<lambda>(re, pos, ds). length ds)"
    by simp
next
  fix re :: "rune list \<Rightarrow> nat option" and pos :: nat and ds :: "(rune \<times> nat) list"
  assume "ds \<noteq> []"
  then show "((re, pos + snd (hd ds), tl ds), (re, pos, ds)) \<in> measure (\<lambda>(re, pos, ds). length ds)"
    by simp
qed

declare FindAllStringIndex.simps [simp del]

definition inSkip :: "(nat \<times> nat) list \<Rightarrow> nat \<Rightarrow> bool" where
  "inSkip skipSpans pos = list_ex (\<lambda>(s, e). s \<le> pos \<and> pos < e) skipSpans"

text \<open>
  The body of the loop \<open>for i, r := range runes\<close>.  \<open>bytePos\<close> is
  \<open>len(string(runes[:i]))\<close>: the length of the re-encoded prefix, not the offset of the
  code point in \<open>text\<close>; the two agree when \<open>text\<close> is well-formed UTF-8.
  The substitutes are U+FF0C, U+FF1B, U+FF1F, U+FF08, U+FF09 and U+FF1A.
\<close>

definition convert_rune ::
  "(rune \<Rightarrow> bool) \<Rightarrow> (nat \<times> nat) list \<Rightarrow> rune list \<Rightarrow> nat \<Rightarrow> rune" where
  "convert_rune tbl skipSpans runes i =
     (let r = runes ! i;
          bytePos = length (encode_runes (take i runes))
      in if inSkip skipSpans bytePos then r
         else if r = 0x2C then 0xFF0C
         else if r = 0x3B then 0xFF1B
         else if r = 0x3F then 0xFF1F
         else if r = 0x28 then 0xFF08
         else if r = 0x29 then 0xFF09
         else if r = 0x3A then
           (if 0 < i \<and> i < length runes - 1 \<and> IsDigit tbl (runes ! (i - 1))
               \<and> IsDigit tbl (runes ! (i + 1))
            then 0x3A else 0xFF1A)
         else r)"

definition convertPunctuation :: "(rune \<Rightarrow> bool) \<Rightarrow> string \<Rightarrow> string" where
  "convertPunctuation tbl text =
     (let ds = decode text;
          skipSpans = FindAllStringIndex urlPattern 0 ds @ FindAllStringIndex markerPattern 0 ds;
          runes = map fst ds
      in encode_runes (map (convert_rune tbl skipSpans runes) [0..<length runes]))"

section \<open>The conversion on code points\<close>

text \<open>
  The same conversion, stated on the code points of a text and their indices instead of
  bytes and byte offsets.  \<open>substitute\<close> is the \<open>switch\<close> of the loop.
\<close>

definition substitute :: "(rune \<Rightarrow> bool) \<Rightarrow> rune list \<Rightarrow> nat \<Rightarrow> rune" where
  "substitute tbl runes i =
     (let r = runes ! i
      in if r = 0x2C then 0xFF0C
         else if r = 0x3B then 0xFF1B
         else if r = 0x3F then 0xFF1F
         else if r = 0x28 then 0xFF08
         else if r = 0x29 then 0xFF09
         else if r = 0x3A then
           (if 0 < i \<and> i < length runes - 1 \<and> IsDigit tbl (runes ! (i - 1))
               \<and> IsDigit tbl (runes ! (i + 1))
            then 0x3A else 0xFF1A)
         else r)"

text \<open>
  \<open>scan_mask re k rs\<close> marks the code points that lie in a match of \<open>re\<close>, the matches
  taken as \<open>FindAllStringIndex\<close> takes them; \<open>k\<close> code points of a match that has begun
  are still to come.
\<close>

fun scan_mask :: "(rune list \<Rightarrow> nat option) \<Rightarrow> nat \<Rightarrow> rune list \<Rightarrow> bool list" where
  "scan_mask re k [] = []"
| "scan_mask re (Suc k) (r # rs) = True # scan_mask re k rs"
| "scan_mask re 0 (r # rs) =
     (case re (r # rs) of
        Some (Suc n) \<Rightarrow> True # scan_mask re n rs
      | _ \<Rightarrow> False # scan_mask re 0 rs)"

definition skip_mask :: "rune list \<Rightarrow> bool list" where
  "skip_mask rs =
     map (\<lambda>(u, m). u \<or> m) (zip (scan_mask urlPattern 0 rs) (scan_mask markerPattern 0 rs))"

definition convert_runes :: "(rune \<Rightarrow> bool) \<Rightarrow> rune list \<Rightarrow> rune list" where
  "convert_runes tbl rs =
     map (\<lambda>i. if skip_mask rs ! i then rs ! i else substitute tbl rs i) [0..<length rs]"

text \<open>How a code point and its image under the conversion can be related.\<close>

definition subst_rel :: "rune \<Rightarrow> rune \<Rightarrow> bool" where
  "subst_rel x y =
     (y = x \<or> (x = 0x2C \<and> y = 0xFF0C) \<or> (x = 0x3B \<and> y = 0xFF1B) \<or> (x = 0x3F \<and> y = 0xFF1F)
      \<or> (x = 0x28 \<and> y = 0xFF08) \<or> (x = 0x29 \<and> y = 0xFF09) \<or> (x = 0x3A \<and> y = 0xFF1A))"

section \<open>The contract of the punctuation conversion\<close>

text \<open>
  The contract in the words of the specification, on the code points \<open>rs\<close> of a text.
  A URL begins at index \<open>a\<close> when one of the four schemes stands there, followed by a
  code point that is not whitespace; it runs up to the next whitespace.  Whitespace is
  the class \<open>\s\<close> of the pattern (\<open>re_space\<close>).  A marker runs from an opening brace
  to the next closing brace.
\<close>

definition spec_schemes :: "rune list list" where
  "spec_schemes = map runes_of_ascii [''https://'', ''http://'', ''ftp://'', ''mailto:'']"

definition spec_url_at :: "rune list \<Rightarrow> nat \<Rightarrow> bool" where
  "spec_url_at rs a =
     (\<exists>l\<in>set spec_schemes. take (length l) (drop a rs) = l \<and> a + length l < length rs
        \<and> \<not> re_space (rs ! (a + length l)))"

definition spec_in_url :: "rune list \<Rightarrow> nat \<Rightarrow> bool" where
  "spec_in_url rs i =
     (\<exists>a\<le>i. spec_url_at rs a \<and> (\<forall>j. a \<le> j \<and> j \<le> i \<longrightarrow> \<not> re_space (rs ! j)))"

definition spec_in_marker :: "rune list \<Rightarrow> nat \<Rightarrow> bool" where
  "spec_in_marker rs i =
     (\<exists>a\<le>i. \<exists>b\<ge>i. b < length rs \<and> rs ! a = 0x7B \<and> rs ! b = 0x7D
        \<and> (\<forall>j. a < j \<and> j < b \<longrightarrow> rs ! j \<noteq> 0x7D))"

definition spec_flanked :: "(rune \<Rightarrow> bool) \<Rightarrow> rune list \<Rightarrow> nat \<Rightarrow> bool" where
  "spec_flanked tbl rs i =
     (0 < i \<and> i + 1 < length rs \<and> IsDigit tbl (rs ! (i - 1)) \<and> IsDigit tbl (rs ! (i + 1)))"

text \<open>The full-width form of an ASCII character \<open>c\<close> is U+FF00 + (\<open>c\<close> - 0x20).\<close>

definition spec_normalize :: "(rune \<Rightarrow> bool) \<Rightarrow> rune list \<Rightarrow> rune list" where
  "spec_normalize tbl rs =
     map (\<lambda>i. let r = rs ! i
              in if spec_in_url rs i \<or> spec_in_marker rs i then r
                 else if r \<in> {0x2C, 0x3B, 0x3F, 0x28, 0x29} then r + 0xFEE0
                 else if r = 0x3A \<and> \<not> spec_flanked tbl rs i then 0xFF1A
                 else r)
       [0..<length rs]"

section \<open>Front matter (\<open>parseFrontMatter\<close>, \<open>formatDate\<close>)\<close>

text \<open>\<open>strings.Index\<close>: the offset of the first occurrence, \<open>None\<close> for Go's \<open>-1\<close>.\<close>

fun Index :: "string \<Rightarrow> string \<Rightarrow> nat option" where
  "Index [] sub = (if sub = [] then Some 0 else None)"
| "Index (c # cs) sub =
     (if HasPrefix (c # cs) sub then Some 0 else map_option Suc (Index cs sub))"

fun Join :: "string list \<Rightarrow> string \<Rightarrow> string" where
  "Join [] sep = []"
| "Join [x] sep = x"
| "Join (x # y # ys) sep = x @ sep @ Join (y # ys) sep"

text \<open>
  \<open>strings.ToLower\<close>, restricted to the ASCII letters.  Its result is only compared with
  the words \<open>true\<close> and \<open>yes\<close>, and no letter outside ASCII lowers to one of theirs.
\<close>

definition ToLower :: "string \<Rightarrow> string" where
  "ToLower s = map (\<lambda>c. if 0x41 \<le> (of_char c :: nat) \<and> (of_char c :: nat) \<le> 0x5A
                        then char_of (of_char c + (32 :: nat)) else c) s"

text \<open>
  What \<open>yaml.Unmarshal\<close> puts into a \<open>map[string]interface{}\<close>: a string, a boolean, a
  sequence, or a value of another type, which the program only ever prints with \<open>%v\<close>
  and which is carried here as that printed form.
\<close>

datatype yaml_value = YString string | YBool bool | YSeq "yaml_value list" | YOther string

fun Sprint :: "yaml_value \<Rightarrow> string" where
  "Sprint (YString s) = s"
| "Sprint (YBool b) = (if b then ''true'' else ''false'')"
| "Sprint (YSeq xs) = ''['' @ Join (map Sprint xs) '' '' @ '']''"
| "Sprint (YOther s) = s"

record frontMatter =
  Title :: string
  Author :: string
  Date :: string
  Signature :: bool

definition placeholder :: string where
  "placeholder = [CHR 0xE8, CHR 0xAF, CHR 0xB7, CHR 0xE8, CHR 0xBE, CHR 0x93, CHR 0xE5, CHR 0x85,
                  CHR 0xA5, CHR 0xE6, CHR 0x96, CHR 0x87, CHR 0xE5, CHR 0xAD, CHR 0x97]"

definition default_frontMatter :: frontMatter where
  "default_frontMatter =
     \<lparr>Title = placeholder, Author = placeholder, Date = [], Signature = False\<rparr>"

definition author_separator :: string where
  "author_separator = [CHR 0xE3, CHR 0x80, CHR 0x81]"

text \<open>
  The YAML parser is a library outside the repository: \<open>unmarshal\<close> is
  \<open>yaml.Unmarshal\<close> into a generic map, \<open>None\<close> when it returns an error.
\<close>

definition parseFrontMatter ::
  "(string \<Rightarrow> (string \<rightharpoonup> yaml_value) option) \<Rightarrow> string \<Rightarrow> frontMatter \<times> string" where
  "parseFrontMatter unmarshal input0 =
     (let fm = default_frontMatter;
          input = ReplaceAll input0 [CHR 0x0D, NL] [NL]
      in if \<not> HasPrefix input ''---'' then (fm, input)
         else
          (let rest0 = drop 3 input;
               rest = (if rest0 \<noteq> [] \<and> hd rest0 = NL then tl rest0 else rest0)
           in case Index rest (NL # ''---'') of
                None \<Rightarrow> (fm, input)
              | Some idx \<Rightarrow>
                 (let yamlBlock = take idx rest;
                      body0 = drop (idx + 4) rest;
                      body = (if body0 \<noteq> [] \<and> hd body0 = NL then tl body0 else body0)
                  in case unmarshal yamlBlock of
                       None \<Rightarrow> (fm, body)
                     | Some raw \<Rightarrow>
                        (let fm1 = (case raw ''title'' of
                                      Some v \<Rightarrow> fm\<lparr>Title := Sprint v\<rparr>
                                    | None \<Rightarrow> fm);
                             fm2 = (case raw ''author'' of
                                      Some (YString a) \<Rightarrow> fm1\<lparr>Author := a\<rparr>
                                    | Some (YSeq a) \<Rightarrow>
                                        fm1\<lparr>Author := Join (map Sprint a) author_separator\<rparr>
                                    | _ \<Rightarrow> fm1);
                             fm3 = (case raw ''date'' of
                                      Some v \<Rightarrow> fm2\<lparr>Date := Sprint v\<rparr>
                                    | None \<Rightarrow> fm2);
                             fm4 = (case raw ''signature'' of
                                      Some (YBool s) \<Rightarrow> fm3\<lparr>Signature := s\<rparr>
                                    | Some (YString s) \<Rightarrow>
                                        fm3\<lparr>Signature :=
                                          (ToLower s = ''true'' \<or> ToLower s = ''yes'')\<rparr>
                                    | _ \<Rightarrow> fm3)
                         in (fm4, body)))))"

text \<open>
  \<open>dateRe = ^(\d{4})-(\d{1,2})-(\d{1,2})$\<close>: the three groups of a match (\<open>\d\<close> is an
  ASCII digit).
\<close>

definition is_ascii_digit :: "char \<Rightarrow> bool" where
  "is_ascii_digit c = (0x30 \<le> (of_char c :: nat) \<and> (of_char c :: nat) \<le> 0x39)"

definition dateRe :: "string \<Rightarrow> (string \<times> string \<times> string) option" where
  "dateRe s =
     (let y = take 4 s; r1 = drop 4 s in
      if length y = 4 \<and> list_all is_ascii_digit y \<and> r1 \<noteq> [] \<and> hd r1 = CHR ''-''
      then (let r2 = tl r1; m = takeWhile is_ascii_digit r2; r3 = drop (length m) r2 in
            if 1 \<le> length m \<and> length m \<le> 2 \<and> r3 \<noteq> [] \<and> hd r3 = CHR ''-''
            then (let d = tl r3 in
                  if 1 \<le> length d \<and> length d \<le> 2 \<and> list_all is_ascii_digit d
                  then Some (y, m, d) else None)
            else None)
      else None)"

definition formatDate :: "string \<Rightarrow> string" where
  "formatDate date =
     (if date = [] then [DQ, DQ]
      else case dateRe date of
        Some (year, m, d) \<Rightarrow>
          (let month = dropWhile (\<lambda>c. c = CHR ''0'') m;
               day = dropWhile (\<lambda>c. c = CHR ''0'') d
           in ''datetime(\<newline>  year: '' @ year @ '',\<newline>  month: '' @ month
              @ '',\<newline>  day: '' @ day @ '',\<newline>)'')
      | None \<Rightarrow> [DQ] @ date @ [DQ])"

section \<open>More of \<open>strings\<close>, \<open>strconv\<close> and \<open>path/filepath\<close>\<close>

text \<open>\<open>unicode.IsSpace\<close>: the code points with the property White_Space.\<close>

definition IsSpace :: "rune \<Rightarrow> bool" where
  "IsSpace r =
     ((0x09 \<le> r \<and> r \<le> 0x0D) \<or> r = 0x20 \<or> r = 0x85 \<or> r = 0xA0 \<or> r = 0x1680
      \<or> (0x2000 \<le> r \<and> r \<le> 0x200A) \<or> r = 0x2028 \<or> r = 0x2029 \<or> r = 0x202F
      \<or> r = 0x205F \<or> r = 0x3000)"

text \<open>
  \<open>strings.TrimSpace\<close>: the substring left when the leading and the trailing white
  space is cut off.  The result is a slice of the argument, so what is cut is counted
  in source bytes.
\<close>

definition TrimSpace :: "string \<Rightarrow> string" where
  "TrimSpace s =
     (let ds = decode s;
          lead = takeWhile (\<lambda>d. IsSpace (fst d)) ds;
          rest = drop (length lead) ds;
          trail = takeWhile (\<lambda>d. IsSpace (fst d)) (rev rest);
          a = sum_list (map snd lead);
          b = sum_list (map snd trail)
      in take (length s - a - b) (drop a s))"

text \<open>\<open>strings.TrimRight\<close> with a cutset of ASCII bytes.\<close>

definition TrimRight :: "string \<Rightarrow> string \<Rightarrow> string" where
  "TrimRight s cutset = rev (dropWhile (\<lambda>c. c \<in> set cutset) (rev s))"

definition TrimSuffix :: "string \<Rightarrow> string \<Rightarrow> string" where
  "TrimSuffix s suffix = (if HasSuffix s suffix then take (length s - length suffix) s else s)"

text \<open>\<open>strings.Split(s, sep)\<close> for a separator of one byte.\<close>

fun Split :: "string \<Rightarrow> char \<Rightarrow> string list" where
  "Split [] sep = [[]]"
| "Split (c # cs) sep =
     (if c = sep then [] # Split cs sep
      else (case Split cs sep of [] \<Rightarrow> [[c]] | h # t \<Rightarrow> (c # h) # t))"

definition Repeat :: "string \<Rightarrow> nat \<Rightarrow> string" where
  "Repeat s n = concat (replicate n s)"

definition Contains :: "string \<Rightarrow> string \<Rightarrow> bool" where
  "Contains s sub = (Index s sub \<noteq> None)"

definition FormatBool :: "bool \<Rightarrow> string" where
  "FormatBool b = (if b then ''true'' else ''false'')"

text \<open>The verb \<open>%d\<close> on a counter that is never negative.\<close>

function Itoa :: "nat \<Rightarrow> string" where
  "Itoa n = (if n < 10 then [char_of (48 + n)] else Itoa (n div 10) @ [char_of (48 + n mod 10)])"
  by pat_completeness auto
termination
  by (relation "measure id") auto

declare Itoa.simps [simp del]

text \<open>
  \<open>strconv.Atoi\<close> on a string of ASCII digits, with the error discarded as the caller
  does (\<open>count, _ = strconv.Atoi(m[1])\<close>): the value, or the largest \<open>int\<close> when the value
  does not fit (\<open>int\<close> has 64 bits on the platforms the templates are built for).
\<close>

definition digits_value :: "string \<Rightarrow> nat" where
  "digits_value ds = foldl (\<lambda>acc c. 10 * acc + (of_char c - 48)) 0 ds"

definition maxInt :: nat where
  "maxInt = 2 ^ 63 - 1"

definition Atoi :: "string \<Rightarrow> nat" where
  "Atoi ds = min (digits_value ds) maxInt"

text \<open>\<open>filepath.Base\<close> and \<open>filepath.Ext\<close>, with \<open>/\<close> as the separator.\<close>

definition Base :: "string \<Rightarrow> string" where
  "Base path =
     (if path = [] then ''.''
      else (let p = rev (dropWhile (\<lambda>c. c = CHR ''/'') (rev path)) in
            if p = [] then ''/''
            else rev (takeWhile (\<lambda>c. c \<noteq> CHR ''/'') (rev p))))"

definition Ext :: "string \<Rightarrow> string" where
  "Ext path =
     (let last = takeWhile (\<lambda>c. c \<noteq> CHR ''/'') (rev path) in
      if CHR ''.'' \<in> set last
      then CHR ''.'' # rev (takeWhile (\<lambda>c. c \<noteq> CHR ''.'') last)
      else [])"

section \<open>The Markdown tree\<close>

text \<open>
  The tree comes from the goldmark parser, a library outside the repository.  A node has
  a kind and children; the fields the converter reads are carried by the kind.  A text
  node refers to a segment of the source: the bytes of the segment are stored in the
  node, so the converter's \<open>source\<close> field needs no model.
\<close>

datatype kind =
    KindText string bool bool
  | KindString string
  | KindCodeSpan
  | KindEmphasis nat
  | KindLink string
  | KindAutoLink string
  | KindImage string
  | KindRawHTML
  | KindParagraph
  | KindHeading nat
  | KindList bool
  | KindListItem
  | KindFencedCodeBlock "string option" "string list"
  | KindCodeBlock "string list"
  | KindThematicBreak
  | KindBlockquote
  | KindHTMLBlock "string list"
  | KindOther

text \<open>
  \<open>KindText v soft hard\<close>: the segment's bytes, \<open>SoftLineBreak()\<close>, \<open>HardLineBreak()\<close>;
  \<open>KindString\<close>: \<open>Value\<close>; \<open>KindEmphasis\<close>: \<open>Level\<close>; \<open>KindLink\<close> and \<open>KindImage\<close>:
  \<open>Destination\<close>; \<open>KindAutoLink\<close>: \<open>URL(source)\<close>; \<open>KindHeading\<close>: \<open>Level\<close>;
  \<open>KindList\<close>: \<open>IsOrdered()\<close>; \<open>KindFencedCodeBlock\<close>: the info string (\<open>None\<close> when
  \<open>Info\<close> is nil) and \<open>Lines()\<close>; \<open>KindCodeBlock\<close> and \<open>KindHTMLBlock\<close>: \<open>Lines()\<close>;
  \<open>KindOther\<close>: the document node, a text block, and every kind the converter does
  not name.
\<close>

datatype node = Node kind "node list"

fun Kind :: "node \<Rightarrow> kind" where
  "Kind (Node k cs) = k"

fun children :: "node \<Rightarrow> node list" where
  "children (Node k cs) = cs"

text \<open>
  The libraries the renderer calls: the table behind \<open>unicode.IsDigit\<close> and
  \<open>html.UnescapeString\<close>.
\<close>

record golib =
  DigitTable :: "rune \<Rightarrow> bool"
  UnescapeString :: "string \<Rightarrow> string"

record converter =
  figureCounter :: nat
  hasSeenHeader :: bool

section \<open>Inline rendering\<close>

text \<open>The bytes of the text children of a code span.\<close>

fun text_value :: "node \<Rightarrow> string" where
  "text_value (Node (KindText v soft hard) cs) = v"
| "text_value n = []"

text \<open>
  \<open>plainText\<close>: \<open>ast.Walk\<close> visits the node, then its children in order; a code span
  contributes its text children and is not entered.
\<close>

fun plainText :: "golib \<Rightarrow> node \<Rightarrow> string" where
  "plainText L (Node k cs) =
     (case k of
        KindText v soft hard \<Rightarrow>
          v @ (if soft then '' '' else []) @ concat (map (plainText L) cs)
      | KindCodeSpan \<Rightarrow> concat (map text_value cs)
      | KindString v \<Rightarrow> UnescapeString L v @ concat (map (plainText L) cs)
      | _ \<Rightarrow> concat (map (plainText L) cs))"

fun renderInline :: "golib \<Rightarrow> node \<Rightarrow> string" where
  "renderInline L (Node k cs) =
     (case k of
        KindText v soft hard \<Rightarrow>
          convertPunctuation (DigitTable L) v
          @ (if soft then [NL] else []) @ (if hard then [CHR '' '', BS, NL] else [])
      | KindString v \<Rightarrow> convertPunctuation (DigitTable L) (UnescapeString L v)
      | KindCodeSpan \<Rightarrow> ''`'' @ concat (map text_value cs) @ ''`''
      | KindEmphasis level \<Rightarrow>
          (if level = 2 then ''#strong['' @ concat (map (renderInline L) cs) @ '']''
           else ''#emph['' @ concat (map (renderInline L) cs) @ '']'')
      | KindLink dest \<Rightarrow>
          ''#link(\"'' @ dest @ ''\")['' @ concat (map (renderInline L) cs) @ '']''
      | KindAutoLink url \<Rightarrow> ''#link(\"'' @ url @ ''\")''
      | KindImage dest \<Rightarrow> []
      | KindRawHTML \<Rightarrow> []
      | _ \<Rightarrow> concat (map (renderInline L) cs))"

definition renderInlines :: "golib \<Rightarrow> node \<Rightarrow> string" where
  "renderInlines L n = concat (map (renderInline L) (children n))"

section \<open>Images\<close>

definition is_image :: "node \<Rightarrow> bool" where
  "is_image n = (case Kind n of KindImage dest \<Rightarrow> True | _ \<Rightarrow> False)"

definition Destination :: "node \<Rightarrow> string" where
  "Destination n = (case Kind n of KindImage dest \<Rightarrow> dest | KindLink dest \<Rightarrow> dest | _ \<Rightarrow> [])"

definition collectImages :: "node \<Rightarrow> node list" where
  "collectImages para = filter is_image (children para)"

text \<open>The text \<open>renderSingleImage\<close> formats: a Typst script around the path and the caption.\<close>

definition single_image_script :: "string \<Rightarrow> string \<Rightarrow> nat \<Rightarrow> string" where
  "single_image_script path caption n =
      ''#figure(\<newline>''
      @ ''  context {\<newline>''
      @ ''    let img = image(\"''
      @ path
      @ ''\")\<newline>''
      @ ''    let img-size = measure(img)\<newline>''
      @ ''    let x = img-size.width\<newline>''
      @ ''    let y = img-size.height\<newline>''
      @ ''    let max-size = 13.4cm\<newline>''
      @ ''\<newline>''
      @ ''    let new-x = x\<newline>''
      @ ''    let new-y = y\<newline>''
      @ ''\<newline>''
      @ ''    if x > max-size {\<newline>''
      @ ''      let scale = max-size / x\<newline>''
      @ ''      new-x = max-size\<newline>''
      @ ''      new-y = y * scale\<newline>''
      @ ''    }\<newline>''
      @ ''\<newline>''
      @ ''    if new-y > max-size {\<newline>''
      @ ''      let scale = max-size / new-y\<newline>''
      @ ''      new-x = new-x * scale\<newline>''
      @ ''      new-y = max-size\<newline>''
      @ ''    }\<newline>''
      @ ''\<newline>''
      @ ''    image(\"''
      @ path
      @ ''\", width: new-x, height: new-y)\<newline>''
      @ ''  },\<newline>''
      @ ''  caption: [''
      @ caption
      @ ''],\<newline>''
      @ '') <fig-''
      @ Itoa n
      @ ''>\<newline>''"

definition caption_of :: "string \<Rightarrow> string" where
  "caption_of path = (let filename = Base path in TrimSuffix filename (Ext filename))"

definition renderSingleImage :: "converter \<Rightarrow> node \<Rightarrow> string \<times> converter" where
  "renderSingleImage c img =
     (let c1 = c\<lparr>figureCounter := figureCounter c + 1\<rparr>;
          path = Destination img;
          caption = caption_of path
      in (single_image_script path caption (figureCounter c1), c1))"

text \<open>The text \<open>renderMultiImage\<close> formats.\<close>

definition multi_image_script ::
  "string \<Rightarrow> string \<Rightarrow> string \<Rightarrow> string \<Rightarrow> string \<Rightarrow> string" where
  "multi_image_script paths captions alts is_subfigure main_caption =
      ''\<newline>''
      @ ''#context {\<newline>''
      @ ''  let paths = (''
      @ paths
      @ '')\<newline>''
      @ ''  let captions = (''
      @ captions
      @ '')\<newline>''
      @ ''  let alts = (''
      @ alts
      @ '')\<newline>''
      @ ''\<newline>''
      @ ''  let is_subfigure = ''
      @ is_subfigure
      @ ''\<newline>''
      @ ''  let main_caption = \"''
      @ main_caption
      @ ''\"\<newline>''
      @ ''\<newline>''
      @ ''  let gap = 0.3cm\<newline>''
      @ ''  let max-width = 13.4cm\<newline>''
      @ ''  let min-height = 6cm\<newline>''
      @ ''\<newline>''
      @ ''  let sizes = paths.zip(captions).zip(alts).map(item => {\<newline>''
      @ ''    let p = item.at(0).at(0)\<newline>''
      @ ''    let c = item.at(0).at(1)\<newline>''
      @ ''    let alt = item.at(1)\<newline>''
      @ ''    let img = image(p)\<newline>''
      @ ''    let s = measure(img)\<newline>''
      @ ''    (width: s.width, height: s.height, path: p, caption: c, alt: alt, ratio: s.width / s.height)\<newline>''
      @ ''  })\<newline>''
      @ ''\<newline>''
      @ ''  let calc-row-height(imgs, total-width) = {\<newline>''
      @ ''    let ratio-sum = imgs.map(i => i.ratio).sum()\<newline>''
      @ ''    total-width / ratio-sum\<newline>''
      @ ''  }\<newline>''
      @ ''\<newline>''
      @ ''  let rows = ()\<newline>''
      @ ''\<newline>''
      @ ''  if is_subfigure {\<newline>''
      @ ''    rows.push(sizes)\<newline>''
      @ ''  } else {\<newline>''
      @ ''    let remaining = sizes\<newline>''
      @ ''\<newline>''
      @ ''    while remaining.len() > 0 {\<newline>''
      @ ''      let row = ()\<newline>''
      @ ''      let found = false\<newline>''
      @ ''\<newline>''
      @ ''      for n in range(1, remaining.len() + 1) {\<newline>''
      @ ''        let candidate = remaining.slice(0, n)\<newline>''
      @ ''        let gaps = (n - 1) * gap\<newline>''
      @ ''        let available-width = max-width - gaps\<newline>''
      @ ''        let row-h = calc-row-height(candidate, available-width)\<newline>''
      @ ''\<newline>''
      @ ''        if row-h < min-height and n > 1 {\<newline>''
      @ ''          row = remaining.slice(0, n - 1)\<newline>''
      @ ''          remaining = remaining.slice(n - 1)\<newline>''
      @ ''          found = true\<newline>''
      @ ''          break\<newline>''
      @ ''        }\<newline>''
      @ ''      }\<newline>''
      @ ''\<newline>''
      @ ''      if not found {\<newline>''
      @ ''        row = remaining\<newline>''
      @ ''        remaining = ()\<newline>''
      @ ''      }\<newline>''
      @ ''\<newline>''
      @ ''      rows.push(row)\<newline>''
      @ ''    }\<newline>''
      @ ''  }\<newline>''
      @ ''\<newline>''
      @ ''  let render-rows(rows) = {\<newline>''
      @ ''    for row in rows {\<newline>''
      @ ''      let n = row.len()\<newline>''
      @ ''      let gaps = (n - 1) * gap\<newline>''
      @ ''      let available-width = max-width - gaps\<newline>''
      @ ''      let row-height = calc-row-height(row, available-width)\<newline>''
      @ ''\<newline>''
      @ ''      if row-height > max-width {\<newline>''
      @ ''        row-height = max-width\<newline>''
      @ ''      }\<newline>''
      @ ''\<newline>''
      @ ''      align(center, grid(\<newline>''
      @ ''        columns: n,\<newline>''
      @ ''        gutter: gap,\<newline>''
      @ ''        ..row.enumerate().map(item => {\<newline>''
      @ ''          let i = item.at(0)\<newline>''
      @ ''          let img-data = item.at(1)\<newline>''
      @ ''          let w = row-height * img-data.ratio\<newline>''
      @ ''\<newline>''
      @ ''          if is_subfigure {\<newline>''
      @ ''             let sub-label = numbering(\"a\", i + 1)\<newline>''
      @ ''             let sub-text = [ (#sub-label) #img-data.caption ]\<newline>''
      @ ''\<newline>''
      @ ''             v(0.5em)\<newline>''
      @ ''             align(center, block({\<newline>''
      @ ''               image(img-data.path, width: w, height: row-height)\<newline>''
      @ ''               align(center, text(font: FONT_FS, size: zh(3))[#sub-text])\<newline>''
      @ ''             }))\<newline>''
      @ ''          } else {\<newline>''
      @ ''             figure(\<newline>''
      @ ''               image(img-data.path, width: w, height: row-height),\<newline>''
      @ ''               caption: [ #img-data.caption ]\<newline>''
      @ ''             )\<newline>''
      @ ''          }\<newline>''
      @ ''        })\<newline>''
      @ ''      ))\<newline>''
      @ ''      if is_subfigure { v(0.5em) } else { v(0.3em) }\<newline>''
      @ ''    }\<newline>''
      @ ''  }\<newline>''
      @ ''\<newline>''
      @ ''  if is_subfigure {\<newline>''
      @ ''    figure(\<newline>''
      @ ''      context { render-rows(rows) },\<newline>''
      @ ''      caption: [ #main_caption ]\<newline>''
      @ ''    )\<newline>''
      @ ''  } else {\<newline>''
      @ ''    render-rows(rows)\<newline>''
      @ ''  }\<newline>''
      @ ''}\<newline>''
      @ ''\<newline>''"

text \<open>
  The second loop of \<open>renderMultiImage\<close>: one \<open>imgInfo\<close> (path, caption, alt, figNum) per
  image; outside a subfigure group every image takes the next figure number.
\<close>

fun image_infos ::
  "golib \<Rightarrow> bool \<Rightarrow> converter \<Rightarrow> node list
     \<Rightarrow> (string \<times> string \<times> string \<times> nat) list \<times> converter" where
  "image_infos L isSubfigure c [] = ([], c)"
| "image_infos L isSubfigure c (img # imgs) =
     (let path = Destination img;
          caption = caption_of path;
          alt = plainText L img;
          c1 = (if \<not> isSubfigure then c\<lparr>figureCounter := figureCounter c + 1\<rparr> else c);
          figNum = (if \<not> isSubfigure then figureCounter c1 else 0);
          (infos, c2) = image_infos L isSubfigure c1 imgs
      in ((path, caption, alt, figNum) # infos, c2))"

definition quoted :: "string \<Rightarrow> string" where
  "quoted s = [DQ] @ s @ [DQ]"

definition renderMultiImage :: "golib \<Rightarrow> converter \<Rightarrow> node list \<Rightarrow> string \<times> converter" where
  "renderMultiImage L c images =
     (let isSubfigure = list_ex (\<lambda>img. plainText L img \<noteq> []) images;
          c1 = (if isSubfigure then c\<lparr>figureCounter := figureCounter c + 1\<rparr> else c);
          (infos, c2) = image_infos L isSubfigure c1 images;
          pathsStr = map (\<lambda>(path, caption, alt, figNum). quoted path) infos;
          captionsStr = map (\<lambda>(path, caption, alt, figNum). quoted caption) infos;
          altsStr = map (\<lambda>(path, caption, alt, figNum). quoted alt) infos;
          mainCaption = (if isSubfigure \<and> infos \<noteq> []
                         then (case hd infos of (path, caption, alt, figNum) \<Rightarrow> alt) else [])
      in (multi_image_script (Join pathsStr '', '') (Join captionsStr '', '')
            (Join altsStr '', '') (FormatBool isSubfigure) mainCaption, c2))"

section \<open>Markers\<close>

text \<open>
  \<open>vMarkerRe = ^\{v(?::(\d+))?\}$\<close>: the first group of a match, empty when the group
  took no part.
\<close>

definition vMarkerRe :: "string \<Rightarrow> string option" where
  "vMarkerRe text =
     (if text = ''{v}'' then Some []
      else if HasPrefix text ''{v:'' \<and> HasSuffix text ''}'' \<and> 5 \<le> length text
              \<and> list_all is_ascii_digit (take (length text - 4) (drop 3 text))
           then Some (take (length text - 4) (drop 3 text))
      else None)"

definition linebreak :: string where
  "linebreak = ''#linebreak(justify: false)''"

definition processMarker :: "string \<Rightarrow> string option" where
  "processMarker text0 =
     (let text = TrimSpace text0 in
      case vMarkerRe text of
        Some m1 \<Rightarrow>
          (let count = (if m1 \<noteq> [] then Atoi m1 else 1);
               lines = replicate count linebreak
           in Some (Join lines [NL] @ [NL]))
      | None \<Rightarrow>
          if text = ''{pagebreak}'' then Some ''#pagebreak()\<newline>''
          else if text = ''{pagebreak:weak}'' then Some ''#pagebreak(weak: true)\<newline>''
          else None)"

definition stripTrailingMarker :: "string \<Rightarrow> string \<times> string" where
  "stripTrailingMarker text0 =
     (let text = TrimRight text0 '' '' in
      if HasSuffix text ''{.noindent}''
      then (TrimRight (TrimSuffix text ''{.noindent}'') '' '', ''noindent'')
      else if HasSuffix text ''{indent}''
      then (TrimRight (TrimSuffix text ''{indent}'') '' '', ''indent'')
      else (text, []))"

section \<open>Blocks\<close>

definition noindent_block :: "string \<Rightarrow> string" where
  "noindent_block content =
     ''#block[#set par(first-line-indent: 0pt)\<newline>#block[\<newline>'' @ content
     @ ''\<newline>\<newline>]\<newline>]\<newline>''"

definition fullwidth_colon :: string where
  "fullwidth_colon = [CHR 0xEF, CHR 0xBC, CHR 0x9A]"

definition renderParagraph :: "golib \<Rightarrow> converter \<Rightarrow> node \<Rightarrow> string \<times> converter" where
  "renderParagraph L c para =
     (let images = collectImages para in
      if length images = 1 then renderSingleImage c (hd images)
      else if 1 < length images then renderMultiImage L c images
      else
       (let plain = plainText L para;
            trimmed = TrimSpace plain
        in case processMarker trimmed of
             Some result \<Rightarrow> (result, c)
           | None \<Rightarrow>
              (let content = renderInlines L para;
                   marker = snd (stripTrailingMarker trimmed)
               in if marker = ''noindent''
                  then (let content1 = TrimRight content ('' '' @ [NL]);
                            content2 = TrimSuffix content1 ''{.noindent}'';
                            content3 = TrimRight content2 '' ''
                        in (noindent_block content3, c))
                  else if marker = ''indent''
                  then (let content1 = TrimRight content ('' '' @ [NL]);
                            content2 = TrimSuffix content1 ''{indent}'';
                            content3 = TrimRight content2 '' ''
                        in (content3 @ [NL, NL], c))
                  else if \<not> hasSeenHeader c
                          \<and> (let t = TrimSpace content
                               in HasSuffix t fullwidth_colon \<or> HasSuffix t '':'')
                  then (noindent_block content, c)
                  else (content @ [NL, NL], c))))"

definition renderHeading :: "golib \<Rightarrow> converter \<Rightarrow> nat \<Rightarrow> node \<Rightarrow> string \<times> converter" where
  "renderHeading L c0 level h =
     (let c = c0\<lparr>hasSeenHeader := True\<rparr> in
      if level = 1 then ([], c)
      else
       (let content = renderInlines L h;
            marker = snd (stripTrailingMarker (TrimSpace (plainText L h)))
        in if marker = ''noindent''
           then (let content1 = TrimRight content ('' '' @ [NL]);
                     content2 = TrimSuffix content1 ''{.noindent}'';
                     content3 = TrimRight content2 '' '';
                     prefix = Repeat ''='' level
                 in (''#block[#set par(first-line-indent: 0pt)\<newline>'' @ prefix @ '' ''
                     @ content3 @ ''\<newline>]\<newline>\<newline>'', c))
           else (let prefix = Repeat ''='' level
                 in (prefix @ '' '' @ content @ [NL, NL], c))))"

text \<open>
  \<open>renderList\<close> and \<open>renderListItem\<close>: neither touches the converter's state, since the
  paragraphs of an item are rendered as inlines.  \<open>renderListItems\<close> is the loop of
  \<open>renderList\<close> over the children of the list, \<open>renderListItem\<close> the loop that collects
  the parts of one item.
\<close>

fun renderListItems :: "golib \<Rightarrow> string \<Rightarrow> node list \<Rightarrow> string"
  and renderListItem :: "golib \<Rightarrow> node list \<Rightarrow> string list" where
  "renderListItems L marker [] = []"
| "renderListItems L marker (Node KindListItem cs # rest) =
     marker @ Join (renderListItem L cs) [NL] @ [NL] @ renderListItems L marker rest"
| "renderListItems L marker (n # rest) = renderListItems L marker rest"
| "renderListItem L [] = []"
| "renderListItem L (Node KindParagraph cs # rest) =
     TrimRight (concat (map (renderInline L) cs)) [NL] # renderListItem L rest"
| "renderListItem L (Node (KindList ordered) cs # rest) =
     (renderListItems L (if ordered then ''+ '' else ''- '') cs @ [NL]) # renderListItem L rest"
| "renderListItem L (Node k cs # rest) =
     (let content0 = concat (map (renderInline L) cs);
          content1 = (if content0 = [] then content0 @ concat (map (renderInline L) cs)
                      else content0);
          content = TrimRight content1 [NL]
      in if content \<noteq> [] then content # renderListItem L rest else renderListItem L rest)"

definition renderList :: "golib \<Rightarrow> bool \<Rightarrow> node list \<Rightarrow> string" where
  "renderList L ordered items = renderListItems L (if ordered then ''+ '' else ''- '') items @ [NL]"

definition renderCodeBlock :: "string option \<Rightarrow> string list \<Rightarrow> string" where
  "renderCodeBlock info lines =
     (let code = concat lines;
          lang = (case info of
                    None \<Rightarrow> []
                  | Some i \<Rightarrow> TrimSpace (takeWhile (\<lambda>c. c \<noteq> CHR '' '') i))
      in if lang \<noteq> [] then ''```'' @ lang @ [NL] @ code @ ''```\<newline>\<newline>''
         else ''```\<newline>'' @ code @ ''```\<newline>\<newline>'')"

definition quote_lines :: "string \<Rightarrow> string" where
  "quote_lines content =
     concat (map (\<lambda>line. ''#quote['' @ line @ '']\<newline>'') (Split (TrimRight content [NL]) NL))"

text \<open>
  \<open>renderBlock\<close>, with the two loops over children that call it: \<open>renderBlocks\<close> (the
  default case) and \<open>renderQuoted\<close> (the loop of \<open>renderBlockquote\<close>).
\<close>

fun renderBlock :: "golib \<Rightarrow> converter \<Rightarrow> node \<Rightarrow> bool \<Rightarrow> string \<times> converter"
  and renderBlocks :: "golib \<Rightarrow> converter \<Rightarrow> node list \<Rightarrow> bool \<Rightarrow> string \<times> converter"
  and renderQuoted :: "golib \<Rightarrow> converter \<Rightarrow> node list \<Rightarrow> string \<times> converter" where
  "renderBlock L c (Node KindParagraph cs) inNoindent = renderParagraph L c (Node KindParagraph cs)"
| "renderBlock L c (Node (KindHeading level) cs) inNoindent =
     renderHeading L c level (Node (KindHeading level) cs)"
| "renderBlock L c (Node (KindList ordered) cs) inNoindent =
     (let content = renderList L ordered cs in
      if inNoindent
      then (''#block[#set par(first-line-indent: 0pt)\<newline>'' @ content @ '']\<newline>'', c)
      else (content, c))"
| "renderBlock L c (Node (KindFencedCodeBlock info lines) cs) inNoindent =
     (renderCodeBlock info lines, c)"
| "renderBlock L c (Node (KindCodeBlock lines) cs) inNoindent = (renderCodeBlock None lines, c)"
| "renderBlock L c (Node KindThematicBreak cs) inNoindent = (''#line(length: 100%)\<newline>\<newline>'', c)"
| "renderBlock L c (Node KindBlockquote cs) inNoindent =
     (let (s, c1) = renderQuoted L c cs in (s @ [NL], c1))"
| "renderBlock L c (Node (KindHTMLBlock lines) cs) inNoindent = ([], c)"
| "renderBlock L c (Node k cs) inNoindent = renderBlocks L c cs inNoindent"
| "renderBlocks L c [] inNoindent = ([], c)"
| "renderBlocks L c (n # ns) inNoindent =
     (let (s1, c1) = renderBlock L c n inNoindent;
          (s2, c2) = renderBlocks L c1 ns inNoindent
      in (s1 @ s2, c2))"
| "renderQuoted L c [] = ([], c)"
| "renderQuoted L c (n # ns) =
     (let (s1, c1) = renderBlock L c n False;
          (s2, c2) = renderQuoted L c1 ns
      in (quote_lines s1 @ s2, c2))"

definition isHTMLComment :: "node \<Rightarrow> string \<Rightarrow> bool" where
  "isHTMLComment n keyword =
     (case Kind n of
        KindHTMLBlock lines \<Rightarrow> lines \<noteq> [] \<and> Contains (hd lines) keyword
      | _ \<Rightarrow> False)"

text \<open>
  \<open>renderDocument\<close>: the loop over the children of the document.  The flag says whether
  the loop is inside a no-indent region (between the two sentinel comments); the text of
  a region is written out in the order the source assembles it.
\<close>

fun renderDocumentLoop ::
  "golib \<Rightarrow> converter \<Rightarrow> bool \<Rightarrow> node list \<Rightarrow> string \<times> converter" where
  "renderDocumentLoop L c False [] = ([], c)"
| "renderDocumentLoop L c True [] = ('']\<newline>]\<newline>'', c)"
| "renderDocumentLoop L c False (n # ns) =
     (if isHTMLComment n ''noindent-start''
      then (let (s, c1) = renderDocumentLoop L c True ns
            in (''#block[#set par(first-line-indent: 0pt)\<newline>#block[\<newline>'' @ s, c1))
      else (let (s1, c1) = renderBlock L c n False;
                (s2, c2) = renderDocumentLoop L c1 False ns
            in (s1 @ s2, c2)))"
| "renderDocumentLoop L c True (n # ns) =
     (if isHTMLComment n ''noindent-end''
      then (let (s, c1) = renderDocumentLoop L c False ns in ('']\<newline>]\<newline>'' @ s, c1))
      else (let (s1, c1) = renderBlock L c n True;
                (s2, c2) = renderDocumentLoop L c1 True ns
            in (s1 @ s2, c2)))"

definition renderDocument :: "golib \<Rightarrow> converter \<Rightarrow> node \<Rightarrow> string \<times> converter" where
  "renderDocument L c doc = renderDocumentLoop L c False (children doc)"

section \<open>The document assembler (\<open>convertBody\<close>, \<open>convert\<close>)\<close>

text \<open>
  \<open>parse\<close> stands for \<open>preprocessBody\<close> followed by goldmark's parser: the tree of the
  body.  A fresh converter renders it.
\<close>

definition convertBody :: "golib \<Rightarrow> (string \<Rightarrow> node) \<Rightarrow> string \<Rightarrow> string" where
  "convertBody L parse body =
     fst (renderDocument L \<lparr>figureCounter = 0, hasSeenHeader = False\<rparr> (parse body))"

definition document_header :: string where
  "document_header =
      ''#set document(\<newline>''
      @ ''  title: autoTitle.replace(\"|\", \" \"),\<newline>''
      @ ''  author: autoAuthor,\<newline>''
      @ ''  keywords: \"''
      @ [CHR 0xE5, CHR 0xB7, CHR 0xA5]
      @ [CHR 0xE4, CHR 0xBD, CHR 0x9C]
      @ [CHR 0xE6, CHR 0x80, CHR 0xBB]
      @ [CHR 0xE7, CHR 0xBB, CHR 0x93]
      @ '', ''
      @ [CHR 0xE5, CHR 0xB9, CHR 0xB4]
      @ [CHR 0xE7, CHR 0xBB, CHR 0x88]
      @ [CHR 0xE6, CHR 0x8A, CHR 0xA5]
      @ [CHR 0xE5, CHR 0x91, CHR 0x8A]
      @ ''\",\<newline>''
      @ ''  date: auto,\<newline>''
      @ '')\<newline>''
      @ ''\<newline>''
      @ ''= #autoTitle.split(\"|\").map(s => s.trim()).join(linebreak())\<newline>''
      @ ''\<newline>''"

definition signature_block :: string where
  "signature_block =
      ''\<newline>''
      @ ''#v(18pt)\<newline>''
      @ ''#align(right, block[\<newline>''
      @ ''  #set align(center)\<newline>''
      @ ''  #autoAuthor ''
      @ [BS]
      @ ''\<newline>''
      @ ''  #autoDate.display(\<newline>''
      @ ''    \"[year]''
      @ [CHR 0xE5, CHR 0xB9, CHR 0xB4]
      @ ''[month padding:none]''
      @ [CHR 0xE6, CHR 0x9C, CHR 0x88]
      @ ''[day padding:none]''
      @ [CHR 0xE6, CHR 0x97, CHR 0xA5]
      @ ''\",\<newline>''
      @ ''  )\<newline>''
      @ ''])\<newline>''"

text \<open>\<open>templateHead\<close> is the embedded file \<open>template_head.typ\<close>.\<close>

definition convert :: "string \<Rightarrow> golib \<Rightarrow> (string \<Rightarrow> node) \<Rightarrow> frontMatter \<Rightarrow> string \<Rightarrow> string" where
  "convert templateHead L parse fm body =
     templateHead
     @ ''#let autoTitle = \"'' @ Title fm @ ''\"\<newline>\<newline>''
     @ ''#let autoAuthor = \"'' @ Author fm @ ''\"\<newline>\<newline>''
     @ ''#let autoDate = '' @ formatDate (Date fm) @ ''\<newline>\<newline>''
     @ document_header
     @ (if \<not> Signature fm then ''#name(autoAuthor)\<newline>'' else [])
     @ [NL]
     @ convertBody L parse body
     @ (if Signature fm then signature_block else [])"

section \<open>Which nodes make the renderer meet a heading\<close>

text \<open>
  \<open>renders_heading n\<close>: rendering the block \<open>n\<close> calls \<open>renderHeading\<close>.  The renderer
  descends into block quotes and into the kinds it does not name; the content of a
  paragraph, a list, a code block or an HTML block is rendered without \<open>renderBlock\<close>.
\<close>

fun renders_heading :: "node \<Rightarrow> bool" where
  "renders_heading (Node k cs) =
     (case k of
        KindHeading level \<Rightarrow> True
      | KindParagraph \<Rightarrow> False
      | KindList ordered \<Rightarrow> False
      | KindFencedCodeBlock info lines \<Rightarrow> False
      | KindCodeBlock lines \<Rightarrow> False
      | KindThematicBreak \<Rightarrow> False
      | KindHTMLBlock lines \<Rightarrow> False
      | _ \<Rightarrow> list_ex renders_heading cs)"


section \<open>Escaping is injective\<close>

lemma ReplaceAll_Nil: "ReplaceAll [] old new = []"
  by (simp add: ReplaceAll.simps)

lemma ReplaceAll_single_Cons:
  "ReplaceAll (x # xs) [c] new = (if x = c then new else [x]) @ ReplaceAll xs [c] new"
  by (subst ReplaceAll.simps) (simp add: HasPrefix_def)

lemma ReplaceAll_single:
  "ReplaceAll s [c] new = concat (map (\<lambda>x. if x = c then new else [x]) s)"
  by (induction s) (simp_all add: ReplaceAll_Nil ReplaceAll_single_Cons)

lemma concat_map_concat_map:
  "concat (map f (concat (map g xs))) = concat (map (\<lambda>x. concat (map f (g x))) xs)"
  by (induction xs) simp_all

lemma EscapeString_bytewise: "EscapeString s = concat (map (esc_byte DQ) s)"
proof -
  have "(\<lambda>x. concat (map (\<lambda>x. if x = CHR ''#'' then [BS, CHR ''#''] else [x])
          (concat (map (\<lambda>x. if x = DQ then [BS, DQ] else [x])
             (if x = BS then [BS, BS] else [x]))))) = esc_byte DQ"
    by (rule ext) (simp add: esc_byte_def)
  then show ?thesis
    by (simp add: EscapeString_def ReplaceAll_single concat_map_concat_map)
qed

lemma EscapeContent_bytewise: "EscapeContent s = concat (map (esc_byte (CHR '']'')) s)"
proof -
  have "(\<lambda>x. concat (map (\<lambda>x. if x = CHR ''#'' then [BS, CHR ''#''] else [x])
          (concat (map (\<lambda>x. if x = CHR '']'' then [BS, CHR '']''] else [x])
             (if x = BS then [BS, BS] else [x]))))) = esc_byte (CHR '']'')"
    by (rule ext) (simp add: esc_byte_def)
  then show ?thesis
    by (simp add: EscapeContent_def ReplaceAll_single concat_map_concat_map)
qed

lemma unescape_esc_byte: "unescape (esc_byte q x @ rest) = x # unescape rest"
  by (cases rest) (simp_all add: esc_byte_def)

lemma unescape_bytewise: "unescape (concat (map (esc_byte q) s)) = s"
  by (induction s) (simp_all add: unescape_esc_byte)

text \<open>
  C10.  \<open>EscapeString\<close> and \<open>EscapeContent\<close> are injective: two texts with the same
  escaped form are the same text, and \<open>unescape\<close> is a decoder that recovers every
  text from either escaped form.
\<close>

theorem escape_injective:
  "(EscapeString s1 = EscapeString s2 \<longrightarrow> s1 = s2) \<and>
   (EscapeContent s1 = EscapeContent s2 \<longrightarrow> s1 = s2) \<and>
   unescape (EscapeString s1) = s1 \<and> unescape (EscapeContent s1) = s1"
proof -
  have a: "unescape (EscapeString s) = s" for s
    by (simp add: EscapeString_bytewise unescape_bytewise)
  have b: "unescape (EscapeContent s) = s" for s
    by (simp add: EscapeContent_bytewise unescape_bytewise)
  show ?thesis
    by (metis a b)
qed

theorem escape_injective_witness:
  "EscapeString [CHR ''a'', DQ, BS, CHR ''#''] = [CHR ''a'', BS, DQ, BS, BS, BS, CHR ''#''] \<and>
   EscapeContent [CHR '']'', BS] = [BS, CHR '']'', BS, BS] \<and>
   unescape [CHR ''a'', BS, DQ, BS, BS, BS, CHR ''#''] = [CHR ''a'', DQ, BS, CHR ''#''] \<and>
   unescape (EscapeContent [CHR ''a'', DQ, BS, CHR ''#'']) = [CHR ''a'', DQ, BS, CHR ''#'']"
  using escape_injective [of "[CHR ''a'', DQ, BS, CHR ''#'']" "[CHR ''a'', DQ, BS, CHR ''#'']"]
  by (simp add: EscapeString_bytewise EscapeContent_bytewise esc_byte_def)

section \<open>Decoding inverts encoding\<close>

lemma dec1: "a < 0x80 \<Longrightarrow> DecodeRuneInString (char_of a # rest) = (a, 1)"
  by (simp add: DecodeRuneInString.simps Let_def)

lemma dec2:
  assumes "0xC2 \<le> a" "a < 0xE0" "0x80 \<le> b" "b \<le> 0xBF"
  shows "DecodeRuneInString (char_of a # char_of b # rest) = ((a - 0xC0) * 64 + (b - 0x80), 2)"
proof -
  have a: "of_char (char_of a) = a" using assms by simp
  have b: "of_char (char_of b) = b" using assms by simp
  show ?thesis using assms
    by (simp add: DecodeRuneInString.simps Let_def byte_in_def a b del: of_char_of)
qed

lemma dec3:
  assumes "0xE0 \<le> a" "a < 0xF0" "(if a = 0xE0 then 0xA0 else 0x80) \<le> b"
    "b \<le> (if a = 0xED then 0x9F else 0xBF)" "0x80 \<le> c" "c \<le> 0xBF"
  shows "DecodeRuneInString (char_of a # char_of b # char_of c # rest)
         = ((a - 0xE0) * 4096 + (b - 0x80) * 64 + (c - 0x80), 3)"
proof -
  have a: "of_char (char_of a) = a" using assms by simp
  have b: "of_char (char_of b) = b" using assms by (simp split: if_splits)
  have c: "of_char (char_of c) = c" using assms by simp
  show ?thesis using assms
    by (simp add: DecodeRuneInString.simps Let_def byte_in_def a b c del: of_char_of)
qed

lemma dec4:
  assumes "0xF0 \<le> a" "a < 0xF5" "(if a = 0xF0 then 0x90 else 0x80) \<le> b"
    "b \<le> (if a = 0xF4 then 0x8F else 0xBF)" "0x80 \<le> c" "c \<le> 0xBF" "0x80 \<le> d" "d \<le> 0xBF"
  shows "DecodeRuneInString (char_of a # char_of b # char_of c # char_of d # rest)
         = ((a - 0xF0) * 262144 + (b - 0x80) * 4096 + (c - 0x80) * 64 + (d - 0x80), 4)"
proof -
  have a: "of_char (char_of a) = a" using assms by simp
  have b: "of_char (char_of b) = b" using assms by (simp split: if_splits)
  have c: "of_char (char_of c) = c" using assms by simp
  have d: "of_char (char_of d) = d" using assms by simp
  show ?thesis using assms
    by (simp add: DecodeRuneInString.simps Let_def byte_in_def a b c d del: of_char_of)
qed



lemma div4096: "(r::nat) div 4096 = (r div 64) div 64"
proof -
  have "r div (64 * 64) = r div 64 div 64" by (rule div_mult2_eq)
  then show ?thesis by simp
qed

lemma div262144: "(r::nat) div 262144 = (r div 4096) div 64"
proof -
  have "r div (4096 * 64) = r div 4096 div 64" by (rule div_mult2_eq)
  then show ?thesis by simp
qed

lemma digits3: "(r::nat) = (r div 4096) * 4096 + ((r div 64) mod 64) * 64 + r mod 64"
proof -
  define q where "q = r div 64"
  define a where "a = q div 64"
  have "r = q * 64 + r mod 64" unfolding q_def by simp
  moreover have "q = a * 64 + q mod 64" unfolding a_def by simp
  ultimately have "r = (a * 64 + q mod 64) * 64 + r mod 64" by simp
  then have "r = a * 4096 + (q mod 64) * 64 + r mod 64" by (simp add: algebra_simps)
  then show ?thesis unfolding a_def q_def div4096 .
qed

lemma digits4:
  "(r::nat) = (r div 262144) * 262144 + ((r div 4096) mod 64) * 4096
              + ((r div 64) mod 64) * 64 + r mod 64"
proof -
  define p where "p = r div 4096"
  define a where "a = p div 64"
  have "r = p * 4096 + ((r div 64) mod 64) * 64 + r mod 64"
    unfolding p_def by (rule digits3)
  moreover have "p = a * 64 + p mod 64" unfolding a_def by simp
  ultimately have "r = (a * 64 + p mod 64) * 4096 + ((r div 64) mod 64) * 64 + r mod 64"
    by simp
  then have "r = a * 262144 + (p mod 64) * 4096 + ((r div 64) mod 64) * 64 + r mod 64"
    by (simp add: algebra_simps)
  then show ?thesis unfolding a_def p_def div262144 .
qed

lemma dec2_enc:
  assumes "0x80 \<le> r" "r < 0x800"
  shows "DecodeRuneInString (char_of (0xC0 + r div 64) # char_of (0x80 + r mod 64) # rest) = (r, 2)"
proof -
  define a where "a = r div 64"
  define b where "b = r mod 64"
  have r: "r = a * 64 + b" unfolding a_def b_def by simp
  have b: "b < 64" unfolding b_def by simp
  have "DecodeRuneInString (char_of (0xC0 + a) # char_of (0x80 + b) # rest)
        = ((0xC0 + a - 0xC0) * 64 + (0x80 + b - 0x80), 2)"
    by (rule dec2) (use assms r b in arith)+
  moreover have "(0xC0 + a - 0xC0) * 64 + (0x80 + b - 0x80) = r"
    using r by simp
  ultimately have "DecodeRuneInString (char_of (0xC0 + a) # char_of (0x80 + b) # rest) = (r, 2)"
    by (simp only:)
  then show ?thesis unfolding a_def b_def .
qed

lemma dec3_enc:
  assumes "0x800 \<le> r" "r < 0x10000" "\<not> (0xD800 \<le> r \<and> r \<le> 0xDFFF)"
  shows "DecodeRuneInString (char_of (0xE0 + r div 4096) # char_of (0x80 + (r div 64) mod 64)
           # char_of (0x80 + r mod 64) # rest) = (r, 3)"
proof -
  define a where "a = r div 4096"
  define b where "b = (r div 64) mod 64"
  define c where "c = r mod 64"
  have r: "r = a * 4096 + b * 64 + c" unfolding a_def b_def c_def by (rule digits3)
  have b: "b < 64" unfolding b_def by simp
  have c: "c < 64" unfolding c_def by simp
  have s1: "0xE0 \<le> 0xE0 + a" by simp
  have s2: "0xE0 + a < 0xF0" using assms r b c by arith
  have s3: "(if 0xE0 + a = 0xE0 then 0xA0 else 0x80) \<le> 0x80 + b"
  proof (cases "a = 0")
    case True
    then have "32 \<le> b" using assms r b c by arith
    then show ?thesis using True by simp
  next
    case False
    then show ?thesis by simp
  qed
  have s4: "0x80 + b \<le> (if 0xE0 + a = 0xED then 0x9F else 0xBF)"
  proof (cases "a = 13")
    case True
    then have "b < 32" using assms r b c by arith
    then show ?thesis using True by simp
  next
    case False
    then show ?thesis using b by simp
  qed
  have s5: "0x80 \<le> 0x80 + c" by simp
  have s6: "0x80 + c \<le> 0xBF" using c by simp
  have "DecodeRuneInString (char_of (0xE0 + a) # char_of (0x80 + b) # char_of (0x80 + c) # rest)
        = ((0xE0 + a - 0xE0) * 4096 + (0x80 + b - 0x80) * 64 + (0x80 + c - 0x80), 3)"
    by (rule dec3 [OF s1 s2 s3 s4 s5 s6])
  moreover have "(0xE0 + a - 0xE0) * 4096 + (0x80 + b - 0x80) * 64 + (0x80 + c - 0x80) = r"
    using r by simp
  ultimately have "DecodeRuneInString (char_of (0xE0 + a) # char_of (0x80 + b) # char_of (0x80 + c) # rest)
        = (r, 3)"
    by (simp only:)
  then show ?thesis unfolding a_def b_def c_def .
qed

lemma dec4_enc:
  assumes "0x10000 \<le> r" "r \<le> 0x10FFFF"
  shows "DecodeRuneInString (char_of (0xF0 + r div 262144) # char_of (0x80 + (r div 4096) mod 64)
           # char_of (0x80 + (r div 64) mod 64) # char_of (0x80 + r mod 64) # rest) = (r, 4)"
proof -
  define a where "a = r div 262144"
  define b where "b = (r div 4096) mod 64"
  define c where "c = (r div 64) mod 64"
  define d where "d = r mod 64"
  have r: "r = a * 262144 + b * 4096 + c * 64 + d"
    unfolding a_def b_def c_def d_def by (rule digits4)
  have b: "b < 64" unfolding b_def by simp
  have c: "c < 64" unfolding c_def by simp
  have d: "d < 64" unfolding d_def by simp
  have s1: "0xF0 \<le> 0xF0 + a" by simp
  have s2: "0xF0 + a < 0xF5" using assms r b c d by arith
  have s3: "(if 0xF0 + a = 0xF0 then 0x90 else 0x80) \<le> 0x80 + b"
  proof (cases "a = 0")
    case True
    then have "16 \<le> b" using assms r b c d by arith
    then show ?thesis using True by simp
  next
    case False
    then show ?thesis by simp
  qed
  have s4: "0x80 + b \<le> (if 0xF0 + a = 0xF4 then 0x8F else 0xBF)"
  proof (cases "a = 4")
    case True
    then have "b < 16" using assms r b c d by arith
    then show ?thesis using True by simp
  next
    case False
    then show ?thesis using b by simp
  qed
  have s5: "0x80 \<le> 0x80 + c" by simp
  have s6: "0x80 + c \<le> 0xBF" using c by simp
  have s7: "0x80 \<le> 0x80 + d" by simp
  have s8: "0x80 + d \<le> 0xBF" using d by simp
  have "DecodeRuneInString (char_of (0xF0 + a) # char_of (0x80 + b) # char_of (0x80 + c)
          # char_of (0x80 + d) # rest)
        = ((0xF0 + a - 0xF0) * 262144 + (0x80 + b - 0x80) * 4096 + (0x80 + c - 0x80) * 64
           + (0x80 + d - 0x80), 4)"
    by (rule dec4 [OF s1 s2 s3 s4 s5 s6 s7 s8])
  moreover have "(0xF0 + a - 0xF0) * 262144 + (0x80 + b - 0x80) * 4096 + (0x80 + c - 0x80) * 64
           + (0x80 + d - 0x80) = r"
    using r by simp
  ultimately have "DecodeRuneInString (char_of (0xF0 + a) # char_of (0x80 + b) # char_of (0x80 + c)
          # char_of (0x80 + d) # rest) = (r, 4)"
    by (simp only:)
  then show ?thesis unfolding a_def b_def c_def d_def .
qed

lemma Decode_Encode:
  assumes "valid_rune r"
  shows "DecodeRuneInString (EncodeRune r @ rest) = (r, length (EncodeRune r))"
proof -
  consider (one) "r < 0x80" | (two) "0x80 \<le> r" "r < 0x800"
    | (three) "0x800 \<le> r" "r < 0x10000" | (four) "0x10000 \<le> r"
    by linarith
  then show ?thesis
  proof cases
    case one
    then show ?thesis by (simp add: EncodeRune_def dec1)
  next
    case two
    then show ?thesis by (simp add: EncodeRune_def dec2_enc)
  next
    case three
    have v: "\<not> (0xD800 \<le> r \<and> r \<le> 0xDFFF)" using assms by (simp add: valid_rune_def)
    have e: "EncodeRune r = [char_of (0xE0 + r div 4096), char_of (0x80 + (r div 64) mod 64),
                             char_of (0x80 + r mod 64)]"
      using three v by (auto simp: EncodeRune_def)
    show ?thesis unfolding e using dec3_enc [OF three v] by simp
  next
    case four
    have v: "r \<le> 0x10FFFF" using assms by (simp add: valid_rune_def)
    have e: "EncodeRune r = [char_of (0xF0 + r div 262144), char_of (0x80 + (r div 4096) mod 64),
               char_of (0x80 + (r div 64) mod 64), char_of (0x80 + r mod 64)]"
      using four v by (simp add: EncodeRune_def)
    show ?thesis unfolding e using dec4_enc [OF four v] by simp
  qed
qed


lemma EncodeRune_nonempty: "EncodeRune r \<noteq> []"
  by (simp add: EncodeRune_def)

lemma decode_encode_runes:
  "list_all valid_rune rs \<Longrightarrow>
   decode (encode_runes rs) = map (\<lambda>r. (r, length (EncodeRune r))) rs"
proof (induction rs)
  case Nil
  show ?case by (simp add: encode_runes_def decode.simps)
next
  case (Cons r rs)
  have v: "valid_rune r" using Cons.prems by simp
  have "decode (EncodeRune r @ encode_runes rs)
        = (r, length (EncodeRune r)) # decode (encode_runes rs)"
    by (subst decode.simps) (simp add: EncodeRune_nonempty Decode_Encode [OF v])
  then show ?case using Cons by (simp add: encode_runes_def)
qed

section \<open>Evaluating the conversion on concrete texts\<close>

lemmas cp_eval = convertPunctuation_def convert_rune_def inSkip_def encode_runes_def EncodeRune_def
  char_of_eq_iff decode.simps DecodeRuneInString.simps Let_def byte_in_def RuneError_def
  FindAllStringIndex.simps urlPattern_def markerPattern_def match_scheme_def runes_of_ascii_def
  re_space_def IsDigit_def

section \<open>Front matter without a leading delimiter\<close>

lemma ReplaceAll_crlf_Cons:
  "ReplaceAll (c # cs) [CHR 0x0D, NL] [NL] =
     (if c = CHR 0x0D \<and> cs \<noteq> [] \<and> hd cs = NL then NL # ReplaceAll (tl cs) [CHR 0x0D, NL] [NL]
      else c # ReplaceAll cs [CHR 0x0D, NL] [NL])"
  by (subst ReplaceAll.simps) (cases cs; simp add: HasPrefix_def)

lemma hd_ReplaceAll_crlf:
  "ReplaceAll s [CHR 0x0D, NL] [NL] = CHR ''-'' # t \<Longrightarrow>
   \<exists>s'. s = CHR ''-'' # s' \<and> t = ReplaceAll s' [CHR 0x0D, NL] [NL]"
  by (cases s) (auto simp: ReplaceAll_Nil ReplaceAll_crlf_Cons split: if_splits)

lemma crlf_keeps_no_delimiter:
  assumes "\<not> HasPrefix s ''---''"
  shows "\<not> HasPrefix (ReplaceAll s [CHR 0x0D, NL] [NL]) ''---''"
proof
  assume "HasPrefix (ReplaceAll s [CHR 0x0D, NL] [NL]) ''---''"
  then obtain t where "ReplaceAll s [CHR 0x0D, NL] [NL] = CHR ''-'' # CHR ''-'' # CHR ''-'' # t"
    by (auto simp: HasPrefix_def take_Suc_conv_app_nth
        dest!: sym [of _ "take _ _"] simp del: take_eq_Nil2
        intro: exI [of _ "drop 3 (ReplaceAll s [CHR 0x0D, NL] [NL])"])
      (metis append_take_drop_id append_Cons append_Nil)
  then obtain s1 where 1: "s = CHR ''-'' # s1"
      "CHR ''-'' # CHR ''-'' # t = ReplaceAll s1 [CHR 0x0D, NL] [NL]"
    using hd_ReplaceAll_crlf by blast
  then obtain s2 where 2: "s1 = CHR ''-'' # s2" "CHR ''-'' # t = ReplaceAll s2 [CHR 0x0D, NL] [NL]"
    using hd_ReplaceAll_crlf [of s1] by metis
  then obtain s3 where 3: "s2 = CHR ''-'' # s3"
    using hd_ReplaceAll_crlf [of s2] by metis
  from 1 2 3 have "HasPrefix s ''---''" by (simp add: HasPrefix_def)
  with assms show False by simp
qed

lemma ReplaceAll_absent:
  "old \<noteq> [] \<Longrightarrow> Index s old = None \<Longrightarrow> ReplaceAll s old new = s"
proof (induction s)
  case Nil
  show ?case by (simp add: ReplaceAll_Nil)
next
  case (Cons c cs)
  from Cons.prems have a: "\<not> HasPrefix (c # cs) old" and b: "Index cs old = None"
    by (auto split: if_splits)
  have "ReplaceAll (c # cs) old new = c # ReplaceAll cs old new"
    using a Cons.prems(1) by (subst ReplaceAll.simps) simp
  with Cons.IH [OF Cons.prems(1) b] show ?case by simp
qed

text \<open>
  C2 (as amended).  For every input that does not begin with \<open>---\<close>, \<open>parseFrontMatter\<close>
  returns the default front matter, and as body the input with every CR LF pair replaced
  by LF; when the input holds no CR LF pair, the body is the input itself.
\<close>

theorem parseFrontMatter_no_delimiter:
  assumes "\<not> HasPrefix input ''---''"
  shows "parseFrontMatter unmarshal input
           = (default_frontMatter, ReplaceAll input [CHR 0x0D, NL] [NL])
         \<and> (Index input [CHR 0x0D, NL] = None
              \<longrightarrow> parseFrontMatter unmarshal input = (default_frontMatter, input))"
proof -
  have 1: "parseFrontMatter unmarshal input
             = (default_frontMatter, ReplaceAll input [CHR 0x0D, NL] [NL])"
    using crlf_keeps_no_delimiter [OF assms] by (simp add: parseFrontMatter_def Let_def)
  have 2: "ReplaceAll input [CHR 0x0D, NL] [NL] = input" if "Index input [CHR 0x0D, NL] = None"
    using that by (intro ReplaceAll_absent) simp_all
  show ?thesis using 1 2 by simp
qed

theorem parseFrontMatter_no_delimiter_witness:
  "\<not> HasPrefix ''# Hi'' ''---'' \<and> Index ''# Hi'' [CHR 0x0D, NL] = None
   \<and> parseFrontMatter (\<lambda>y. None) ''# Hi'' = (default_frontMatter, ''# Hi'')"
proof -
  have h: "\<not> HasPrefix ''# Hi'' ''---''" by (simp add: HasPrefix_def)
  have i: "Index ''# Hi'' [CHR 0x0D, NL] = None" by (simp add: HasPrefix_def)
  show ?thesis using parseFrontMatter_no_delimiter [OF h, of "\<lambda>y. None"] h i by blast
qed

theorem parseFrontMatter_crlf_counterexample:
  "\<not> HasPrefix [CHR ''a'', CHR 0x0D, NL, CHR ''b''] ''---''
   \<and> parseFrontMatter (\<lambda>y. None) [CHR ''a'', CHR 0x0D, NL, CHR ''b'']
       = (default_frontMatter, [CHR ''a'', NL, CHR ''b''])
   \<and> [CHR ''a'', NL, CHR ''b''] \<noteq> [CHR ''a'', CHR 0x0D, NL, CHR ''b'']"
  by (simp add: parseFrontMatter_def Let_def HasPrefix_def ReplaceAll.simps)

section \<open>The assembler interpolates the metadata as it is\<close>

lemma EscapeString_quote: "EscapeString [CHR ''a'', DQ, CHR ''b''] = [CHR ''a'', BS, DQ, CHR ''b'']"
  by (simp add: EscapeString_bytewise esc_byte_def)

text \<open>
  C1.  The claim asks that every user-derived text is escaped before it is interpolated.
  \<open>convert\<close> calls neither \<open>EscapeString\<close> nor \<open>EscapeContent\<close>: for the title \<open>a"b\<close>
  the binding it writes is \<open>#let autoTitle = "a"b"\<close>, whose string literal ends after
  \<open>a\<close>, where the escaped title would be \<open>a\"b\<close>; and a text node \<open>#x]\<close> of the body is
  rendered as \<open>#x]\<close>.
\<close>

theorem convert_interpolates_unescaped:
  "convert templateHead L parse
       \<lparr>Title = [CHR ''a'', DQ, CHR ''b''], Author = ''x'', Date = [], Signature = False\<rparr> body
     = templateHead
       @ ''#let autoTitle = \"a\"b\"\<newline>\<newline>''
       @ ''#let autoAuthor = \"x\"\<newline>\<newline>''
       @ ''#let autoDate = \"\"\<newline>\<newline>''
       @ document_header @ ''#name(autoAuthor)\<newline>\<newline>'' @ convertBody L parse body
   \<and> EscapeString [CHR ''a'', DQ, CHR ''b''] = [CHR ''a'', BS, DQ, CHR ''b'']
   \<and> renderInline L (Node (KindText ''#x]'' False False) []) = ''#x]''
   \<and> EscapeContent ''#x]'' = [BS, CHR ''#'', CHR ''x'', BS, CHR '']'']"
proof -
  have 1: "convertPunctuation (DigitTable L) ''#x]'' = ''#x]''"
    by (simp add: cp_eval)
  have 2: "EscapeContent ''#x]'' = [BS, CHR ''#'', CHR ''x'', BS, CHR '']'']"
    by (simp add: EscapeContent_bytewise esc_byte_def)
  show ?thesis
    by (simp add: convert_def formatDate_def EscapeString_quote 1 2)
qed

section \<open>The line-break marker\<close>











section \<open>The automatic no-indent rule and the header flag\<close>

lemma image_infos_flag: "hasSeenHeader (snd (image_infos L b c imgs)) = hasSeenHeader c"
  by (induction imgs arbitrary: c) (simp_all add: Let_def split_def)

lemma renderParagraph_flag: "hasSeenHeader (snd (renderParagraph L c para)) = hasSeenHeader c"
  by (simp add: renderParagraph_def renderSingleImage_def renderMultiImage_def Let_def split_def
      image_infos_flag split: option.splits)

lemma renderHeading_flag: "hasSeenHeader (snd (renderHeading L c level h))"
  by (simp add: renderHeading_def Let_def)

lemma renderBlocks_flag_aux:
  assumes "\<And>n c. n \<in> set ns \<Longrightarrow>
    hasSeenHeader (snd (renderBlock L c n inNoindent)) = (hasSeenHeader c \<or> renders_heading n)"
  shows "hasSeenHeader (snd (renderBlocks L c ns inNoindent))
           = (hasSeenHeader c \<or> list_ex renders_heading ns)"
  using assms
proof (induction ns arbitrary: c)
  case Nil
  show ?case by simp
next
  case (Cons n ns)
  have 1: "hasSeenHeader (snd (renderBlock L c n inNoindent)) = (hasSeenHeader c \<or> renders_heading n)"
    by (rule Cons.prems) simp
  have 2: "hasSeenHeader (snd (renderBlocks L c' ns inNoindent))
             = (hasSeenHeader c' \<or> list_ex renders_heading ns)" for c'
    by (rule Cons.IH) (simp add: Cons.prems)
  show ?case by (simp add: split_def Let_def 1 2)
qed

lemma renderQuoted_flag_aux:
  assumes "\<And>n c. n \<in> set ns \<Longrightarrow>
    hasSeenHeader (snd (renderBlock L c n False)) = (hasSeenHeader c \<or> renders_heading n)"
  shows "hasSeenHeader (snd (renderQuoted L c ns)) = (hasSeenHeader c \<or> list_ex renders_heading ns)"
  using assms
proof (induction ns arbitrary: c)
  case Nil
  show ?case by simp
next
  case (Cons n ns)
  have 1: "hasSeenHeader (snd (renderBlock L c n False)) = (hasSeenHeader c \<or> renders_heading n)"
    by (rule Cons.prems) simp
  have 2: "hasSeenHeader (snd (renderQuoted L c' ns))
             = (hasSeenHeader c' \<or> list_ex renders_heading ns)" for c'
    by (rule Cons.IH) (simp add: Cons.prems)
  show ?case by (simp add: split_def Let_def 1 2)
qed

lemma renderBlock_flag:
  "hasSeenHeader (snd (renderBlock L c n inNoindent)) = (hasSeenHeader c \<or> renders_heading n)"
proof (induction n arbitrary: c inNoindent)
  case (Node k cs)
  have b: "hasSeenHeader (snd (renderBlocks L c cs inNoindent))
             = (hasSeenHeader c \<or> list_ex renders_heading cs)"
    by (rule renderBlocks_flag_aux) (rule Node.IH)
  have q: "hasSeenHeader (snd (renderQuoted L c cs))
             = (hasSeenHeader c \<or> list_ex renders_heading cs)"
    by (rule renderQuoted_flag_aux) (rule Node.IH)
  show ?case
    by (cases k) (simp_all add: b q split_def Let_def renderParagraph_flag renderHeading_flag)
qed

lemma renderBlocks_flag:
  "hasSeenHeader (snd (renderBlocks L c ns inNoindent))
     = (hasSeenHeader c \<or> list_ex renders_heading ns)"
  by (rule renderBlocks_flag_aux) (rule renderBlock_flag)

lemma isHTMLComment_no_heading: "isHTMLComment n keyword \<Longrightarrow> \<not> renders_heading n"
  by (cases n) (auto simp: isHTMLComment_def split: kind.splits)

lemma renderDocumentLoop_flag:
  "hasSeenHeader (snd (renderDocumentLoop L c inside ns))
     = (hasSeenHeader c \<or> list_ex renders_heading ns)"
proof (induction ns arbitrary: c inside)
  case Nil
  show ?case by (cases inside) simp_all
next
  case (Cons n ns)
  show ?case
    by (cases inside)
      (auto simp: split_def Let_def Cons.IH renderBlock_flag dest: isHTMLComment_no_heading)
qed

section \<open>A block among the children of the document\<close>









section \<open>Concrete blocks\<close>









section \<open>The line-break marker in a paragraph of the document\<close>









section \<open>The automatic no-indent rule in the document\<close>




section \<open>What the converter writes for the images of a paragraph\<close>

lemma renderParagraph_one_image:
  "collectImages para = [img] \<Longrightarrow>
   renderParagraph L c para
     = (single_image_script (Destination img) (caption_of (Destination img)) (figureCounter c + 1),
        c\<lparr>figureCounter := figureCounter c + 1\<rparr>)"
  by (simp add: renderParagraph_def renderSingleImage_def Let_def)

lemma image_infos_state:
  "snd (image_infos L b c imgs)
     = c\<lparr>figureCounter := figureCounter c + (if b then 0 else length imgs)\<rparr>"
  by (induction imgs arbitrary: c) (simp_all add: Let_def split_def)

lemma image_infos_paths:
  "map (\<lambda>p. quoted (fst p)) (fst (image_infos L b c imgs))
     = map (\<lambda>img. quoted (Destination img)) imgs"
  by (induction imgs arbitrary: c) (simp_all add: Let_def split_def)

lemma image_infos_captions:
  "map (\<lambda>p. quoted (fst (snd p))) (fst (image_infos L b c imgs))
     = map (\<lambda>img. quoted (caption_of (Destination img))) imgs"
  by (induction imgs arbitrary: c) (simp_all add: Let_def split_def)

lemma image_infos_alts:
  "map (\<lambda>p. quoted (fst (snd (snd p)))) (fst (image_infos L b c imgs))
     = map (\<lambda>img. quoted (plainText L img)) imgs"
  by (induction imgs arbitrary: c) (simp_all add: Let_def split_def)

lemma image_infos_first:
  "imgs \<noteq> [] \<Longrightarrow>
   fst (snd (snd (hd (fst (image_infos L b c imgs))))) = plainText L (hd imgs)"
  by (cases imgs) (simp_all add: Let_def split_def)

lemma image_infos_empty: "(fst (image_infos L b c imgs) = []) = (imgs = [])"
  by (cases imgs) (simp_all add: Let_def split_def)

lemma renderMultiImage_eq:
  "renderMultiImage L c images =
     (multi_image_script (Join (map (\<lambda>img. quoted (Destination img)) images) '', '')
        (Join (map (\<lambda>img. quoted (caption_of (Destination img))) images) '', '')
        (Join (map (\<lambda>img. quoted (plainText L img)) images) '', '')
        (FormatBool (list_ex (\<lambda>img. plainText L img \<noteq> []) images))
        (if list_ex (\<lambda>img. plainText L img \<noteq> []) images \<and> images \<noteq> []
         then plainText L (hd images) else []),
      c\<lparr>figureCounter := figureCounter c
           + (if list_ex (\<lambda>img. plainText L img \<noteq> []) images then 1 else length images)\<rparr>)"
  by (simp add: renderMultiImage_def Let_def split_def image_infos_state image_infos_paths
      image_infos_captions image_infos_alts image_infos_first image_infos_empty)

lemma renderParagraph_many_images:
  "2 \<le> length (collectImages para) \<Longrightarrow>
   renderParagraph L c para = renderMultiImage L c (collectImages para)"
  by (simp add: renderParagraph_def Let_def)

section \<open>The caption of a subfigure group\<close>

lemma EscapeString_say_hi:
  "EscapeString ''say \"hi\"'' = ''say '' @ [BS, DQ] @ ''hi'' @ [BS, DQ]"
  by (simp add: EscapeString_bytewise esc_byte_def)

text \<open>
  Claim C9 at a paragraph of two images, \<open>a.png\<close> with the alt text \<open>say "hi"\<close> and
  \<open>b.png\<close> with none.  The converter takes the group as a subfigure set, advances the
  figure counter once and passes the first alt text as the caption, but it writes the
  alt text into the script as it is: the script begins with the lines below, where the
  string literals of \<open>alts\<close> and \<open>main_caption\<close> end after \<open>say \<close>.  \<open>EscapeString\<close>,
  which is not called, would have written \<open>say \"hi\"\<close>.
\<close>

theorem subfigure_caption_unescaped:
  "renderBlock L c
      (Node KindParagraph
        [Node (KindImage ''a.png'') [Node (KindText ''say \"hi\"'' False False) []],
         Node (KindImage ''b.png'') []]) inNoindent
     = (multi_image_script ''\"a.png\", \"b.png\"'' ''\"a\", \"b\"'' ''\"say \"hi\"\", \"\"'' ''true''
          ''say \"hi\"'',
        c\<lparr>figureCounter := figureCounter c + 1\<rparr>)
   \<and> HasPrefix
        (multi_image_script ''\"a.png\", \"b.png\"'' ''\"a\", \"b\"'' ''\"say \"hi\"\", \"\"'' ''true''
          ''say \"hi\"'')
        (''\<newline>#context {\<newline>''
         @ ''  let paths = (\"a.png\", \"b.png\")\<newline>''
         @ ''  let captions = (\"a\", \"b\")\<newline>''
         @ ''  let alts = (\"say \"hi\"\", \"\")\<newline>''
         @ ''\<newline>''
         @ ''  let is_subfigure = true\<newline>''
         @ ''  let main_caption = \"say \"hi\"\"\<newline>'')
   \<and> EscapeString ''say \"hi\"'' = ''say '' @ [BS, DQ] @ ''hi'' @ [BS, DQ]"
proof (intro conjI)
  let ?p = "Node KindParagraph
        [Node (KindImage ''a.png'') [Node (KindText ''say \"hi\"'' False False) []],
         Node (KindImage ''b.png'') []]"
  have i: "collectImages ?p
           = [Node (KindImage ''a.png'') [Node (KindText ''say \"hi\"'' False False) []],
              Node (KindImage ''b.png'') []]"
    by (simp add: collectImages_def is_image_def)
  have "renderParagraph L c ?p = renderMultiImage L c (collectImages ?p)"
    by (rule renderParagraph_many_images) (simp add: i)
  then show "renderBlock L c ?p inNoindent
     = (multi_image_script ''\"a.png\", \"b.png\"'' ''\"a\", \"b\"'' ''\"say \"hi\"\", \"\"'' ''true''
          ''say \"hi\"'',
        c\<lparr>figureCounter := figureCounter c + 1\<rparr>)"
    unfolding i renderMultiImage_eq
    by (simp add: Destination_def caption_of_def Base_def Ext_def TrimSuffix_def HasSuffix_def
        quoted_def FormatBool_def Let_def)
  show "HasPrefix
        (multi_image_script ''\"a.png\", \"b.png\"'' ''\"a\", \"b\"'' ''\"say \"hi\"\", \"\"'' ''true''
          ''say \"hi\"'')
        (''\<newline>#context {\<newline>''
         @ ''  let paths = (\"a.png\", \"b.png\")\<newline>''
         @ ''  let captions = (\"a\", \"b\")\<newline>''
         @ ''  let alts = (\"say \"hi\"\", \"\")\<newline>''
         @ ''\<newline>''
         @ ''  let is_subfigure = true\<newline>''
         @ ''  let main_caption = \"say \"hi\"\"\<newline>'')"
    by (simp add: multi_image_script_def HasPrefix_def)
  show "EscapeString ''say \"hi\"'' = ''say '' @ [BS, DQ] @ ''hi'' @ [BS, DQ]"
    by (rule EscapeString_say_hi)
qed

section \<open>The conversion on code points agrees with the conversion on bytes\<close>

lemma length_scan_mask [simp]: "length (scan_mask re k rs) = length rs"
  by (induction re k rs rule: scan_mask.induct) (auto split: option.splits nat.splits)

lemma scan_mask_running:
  "scan_mask re k rs = replicate (min k (length rs)) True @ scan_mask re 0 (drop k rs)"
proof (induction rs arbitrary: k)
  case Nil
  show ?case by simp
next
  case (Cons r rs)
  show ?case
  proof (cases k)
    case 0
    then show ?thesis by simp
  next
    case (Suc k')
    show ?thesis unfolding Suc using Cons [of k'] by simp
  qed
qed

lemma scan_mask_match:
  assumes "rs \<noteq> []" "re rs = Some n" "0 < n"
  shows "scan_mask re 0 rs = replicate (min n (length rs)) True @ scan_mask re 0 (drop n rs)"
proof -
  obtain r rs' where rs: "rs = r # rs'" using assms(1) by (cases rs) auto
  obtain m where n: "n = Suc m" using assms(3) by (cases n) auto
  have "scan_mask re 0 rs = True # scan_mask re m rs'"
    using assms(2) unfolding rs n by simp
  also have "scan_mask re m rs' = replicate (min m (length rs')) True @ scan_mask re 0 (drop m rs')"
    by (rule scan_mask_running)
  finally show ?thesis unfolding rs n by simp
qed

lemma scan_mask_no_match:
  assumes "rs \<noteq> []" "(case re rs of None \<Rightarrow> 0 | Some n \<Rightarrow> n) = 0"
  shows "scan_mask re 0 rs = False # scan_mask re 0 (tl rs)"
proof -
  obtain r rs' where rs: "rs = r # rs'" using assms(1) by (cases rs) auto
  show ?thesis using assms(2) unfolding rs by (auto split: option.splits nat.splits)
qed

lemma FindAllStringIndex_starts:
  "(s, e) \<in> set (FindAllStringIndex re pos ds) \<Longrightarrow> pos \<le> s"
proof (induction re pos ds rule: FindAllStringIndex.induct)
  case (1 re pos ds)
  show ?case
  proof (cases "ds = []")
    case True
    then show ?thesis using "1.prems" by (simp add: FindAllStringIndex.simps)
  next
    case False
    define n where "n = (case re (map fst ds) of None \<Rightarrow> 0 | Some n \<Rightarrow> n)"
    show ?thesis
    proof (cases "0 < n")
      case True
      define e' where "e' = pos + sum_list (map snd (take n ds))"
      have F: "FindAllStringIndex re pos ds = (pos, e') # FindAllStringIndex re e' (drop n ds)"
        using False True by (subst FindAllStringIndex.simps) (simp add: n_def e'_def Let_def)
      have "(s, e) = (pos, e') \<or> (s, e) \<in> set (FindAllStringIndex re e' (drop n ds))"
        using "1.prems" unfolding F by simp
      then show ?thesis
      proof
        assume "(s, e) = (pos, e')"
        then show ?thesis by simp
      next
        assume "(s, e) \<in> set (FindAllStringIndex re e' (drop n ds))"
        then have "e' \<le> s"
          using "1.IH"(1) [OF False n_def True e'_def] by simp
        then show ?thesis by (simp add: e'_def)
      qed
    next
      case nz: False
      have F: "FindAllStringIndex re pos ds = FindAllStringIndex re (pos + snd (hd ds)) (tl ds)"
        using False nz by (subst FindAllStringIndex.simps) (simp add: n_def Let_def)
      have "pos + snd (hd ds) \<le> s"
        using "1.IH"(2) [OF False n_def nz] "1.prems" unfolding F by simp
      then show ?thesis by simp
    qed
  qed
qed

lemma inSkip_before:
  "p < pos \<Longrightarrow> \<not> inSkip (FindAllStringIndex re pos ds) p"
  using FindAllStringIndex_starts [of _ _ re pos ds]
  by (fastforce simp: inSkip_def list_ex_iff)

lemma sum_take_less:
  fixes ws :: "nat list"
  assumes "\<forall>w\<in>set ws. 0 < w" "i < n" "i < length ws"
  shows "sum_list (take i ws) < sum_list (take n ws)"
proof -
  have "take n ws = take i ws @ take (n - i) (drop i ws)"
    using assms(2) by (metis le_add_diff_inverse less_imp_le take_add)
  moreover have "0 < sum_list (take (n - i) (drop i ws))"
  proof -
    obtain w ws' where d: "drop i ws = w # ws'"
      using assms(3) by (cases "drop i ws") auto
    have "w \<in> set ws" using d by (metis in_set_dropD list.set_intros(1))
    then have "0 < w" using assms(1) by simp
    moreover obtain k where "n - i = Suc k" using assms(2) by (cases "n - i") auto
    ultimately show ?thesis unfolding d by simp
  qed
  ultimately show ?thesis by simp
qed

lemma sum_take_split:
  fixes ws :: "nat list"
  assumes "n \<le> i"
  shows "sum_list (take i ws) = sum_list (take n ws) + sum_list (take (i - n) (drop n ws))"
proof -
  have "take i ws = take n ws @ take (i - n) (drop n ws)"
    using assms by (metis le_add_diff_inverse take_add)
  then show ?thesis by simp
qed

lemma inSkip_scan_mask:
  assumes "\<forall>d\<in>set ds. 0 < snd d" "i < length ds"
  shows "inSkip (FindAllStringIndex re pos ds) (pos + sum_list (map snd (take i ds)))
         = scan_mask re 0 (map fst ds) ! i"
  using assms
proof (induction re pos ds arbitrary: i rule: FindAllStringIndex.induct)
  case (1 re pos ds)
  have ne: "ds \<noteq> []" using "1.prems"(2) by auto
  have pw: "\<forall>w\<in>set (map snd ds). 0 < w" using "1.prems"(1) by simp
  define n where "n = (case re (map fst ds) of None \<Rightarrow> 0 | Some n \<Rightarrow> n)"
  show ?case
  proof (cases "0 < n")
    case True
    define e' where "e' = pos + sum_list (map snd (take n ds))"
    have F: "FindAllStringIndex re pos ds = (pos, e') # FindAllStringIndex re e' (drop n ds)"
      using ne True by (subst FindAllStringIndex.simps) (simp add: n_def e'_def Let_def)
    have re: "re (map fst ds) = Some n"
      using True unfolding n_def by (cases "re (map fst ds)") auto
    have M: "scan_mask re 0 (map fst ds)
             = replicate (min n (length ds)) True @ scan_mask re 0 (map fst (drop n ds))"
      using scan_mask_match [of "map fst ds" re n] re True ne by (simp add: drop_map)
    show ?thesis
    proof (cases "i < n")
      case in_match: True
      have "sum_list (take i (map snd ds)) < sum_list (take n (map snd ds))"
        using sum_take_less [OF pw in_match] "1.prems"(2) by simp
      then have "pos + sum_list (map snd (take i ds)) < e'"
        by (simp add: e'_def take_map)
      then have "inSkip (FindAllStringIndex re pos ds) (pos + sum_list (map snd (take i ds)))"
        unfolding F by (simp add: inSkip_def)
      moreover have "scan_mask re 0 (map fst ds) ! i"
        unfolding M using in_match "1.prems"(2) by (simp add: nth_append)
      ultimately show ?thesis by simp
    next
      case after: False
      then have ni: "n \<le> i" by simp
      have s: "sum_list (map snd (take i ds))
               = sum_list (map snd (take n ds)) + sum_list (map snd (take (i - n) (drop n ds)))"
        using sum_take_split [OF ni, of "map snd ds"] by (simp add: take_map drop_map)
      have p: "pos + sum_list (map snd (take i ds))
               = e' + sum_list (map snd (take (i - n) (drop n ds)))"
        unfolding s e'_def by simp
      have d: "\<forall>d\<in>set (drop n ds). 0 < snd d"
        using "1.prems"(1) by (meson in_set_dropD)
      have l: "i - n < length (drop n ds)" using ni "1.prems"(2) by simp
      have IH: "inSkip (FindAllStringIndex re e' (drop n ds))
                  (e' + sum_list (map snd (take (i - n) (drop n ds))))
                = scan_mask re 0 (map fst (drop n ds)) ! (i - n)"
        by (rule "1.IH"(1) [OF ne n_def True e'_def d l])
      have "inSkip (FindAllStringIndex re pos ds) (pos + sum_list (map snd (take i ds)))
            = inSkip (FindAllStringIndex re e' (drop n ds))
                (e' + sum_list (map snd (take (i - n) (drop n ds))))"
        unfolding F p by (simp add: inSkip_def)
      moreover have "scan_mask re 0 (map fst ds) ! i
                     = scan_mask re 0 (map fst (drop n ds)) ! (i - n)"
        unfolding M using ni "1.prems"(2) by (simp add: nth_append)
      ultimately show ?thesis using IH by simp
    qed
  next
    case nz: False
    have F: "FindAllStringIndex re pos ds = FindAllStringIndex re (pos + snd (hd ds)) (tl ds)"
      using ne nz by (subst FindAllStringIndex.simps) (simp add: n_def Let_def)
    have M: "scan_mask re 0 (map fst ds) = False # scan_mask re 0 (map fst (tl ds))"
      using scan_mask_no_match [of "map fst ds" re] ne nz by (simp add: n_def map_tl)
    obtain d ds' where ds: "ds = d # ds'" using ne by (cases ds) auto
    have w: "0 < snd d" using "1.prems"(1) ds by simp
    show ?thesis
    proof (cases i)
      case 0
      have "\<not> inSkip (FindAllStringIndex re (pos + snd (hd ds)) (tl ds)) pos"
        by (rule inSkip_before) (simp add: ds w)
      then show ?thesis unfolding F M 0 by simp
    next
      case (Suc j)
      have d': "\<forall>d\<in>set (tl ds). 0 < snd d" using "1.prems"(1) ds by simp
      have l: "j < length (tl ds)" using "1.prems"(2) Suc ds by simp
      have IH: "inSkip (FindAllStringIndex re (pos + snd (hd ds)) (tl ds))
                  (pos + snd (hd ds) + sum_list (map snd (take j (tl ds))))
                = scan_mask re 0 (map fst (tl ds)) ! j"
        by (rule "1.IH"(2) [OF ne n_def nz d' l])
      show ?thesis unfolding F M Suc using IH by (simp add: ds add.assoc)
    qed
  qed
qed

lemma subst_rel_space: "subst_rel x y \<Longrightarrow> re_space y = re_space x"
  by (auto simp: subst_rel_def re_space_def)

lemma subst_rel_ascii: "subst_rel x y \<Longrightarrow> y < 0x80 \<Longrightarrow> x = y"
  by (auto simp: subst_rel_def)

lemma subst_rel_open: "subst_rel x y \<Longrightarrow> (y = 0x7B) = (x = 0x7B)"
  by (auto simp: subst_rel_def)

lemma subst_rel_close: "subst_rel x y \<Longrightarrow> (y = 0x7D) = (x = 0x7D)"
  by (auto simp: subst_rel_def)

lemma takeWhile_rel:
  assumes "list_all2 subst_rel xs ys" "\<And>x y. subst_rel x y \<Longrightarrow> P y = P x"
  shows "length (takeWhile P ys) = length (takeWhile P xs)"
  using assms(1)
proof (induction rule: list_all2_induct)
  case Nil
  show ?case by simp
next
  case (Cons x xs y ys)
  then show ?case using assms(2) [of x y] by simp
qed

lemma ascii_prefix_back:
  assumes "list_all2 subst_rel xs ys" "take (length l) ys = l" "\<forall>c\<in>set l. c < 0x80"
  shows "take (length l) xs = l"
proof -
  have len: "length xs = length ys" using assms(1) by (rule list_all2_lengthD)
  have "length (take (length l) ys) = length l" by (simp only: assms(2))
  then have ll: "length l \<le> length ys" by simp
  have "take (length l) xs = take (length l) ys"
  proof (rule nth_equalityI)
    show "length (take (length l) xs) = length (take (length l) ys)" using len by simp
  next
    fix i assume "i < length (take (length l) xs)"
    then have i: "i < length l" "i < length xs" by simp_all
    have "take (length l) ys ! i = l ! i" using assms(2) by simp
    then have y: "ys ! i = l ! i" using i by simp
    have "l ! i \<in> set l" using i by simp
    then have "ys ! i < 0x80" using assms(3) y by simp
    moreover have "subst_rel (xs ! i) (ys ! i)"
      using assms(1) i(2) by (simp add: list_all2_nthD)
    ultimately have "xs ! i = ys ! i" by (rule subst_rel_ascii [rotated])
    then show "take (length l) xs ! i = take (length l) ys ! i" using i by simp
  qed
  then show ?thesis using assms(2) by simp
qed

lemma match_scheme_back:
  assumes "list_all2 subst_rel xs ys" "match_scheme sch ys = Some n"
    "\<forall>c\<in>set (runes_of_ascii sch). c < 0x80"
  shows "match_scheme sch xs = Some n"
proof -
  define l where "l = runes_of_ascii sch"
  have py: "take (length l) ys = l"
    using assms(2) unfolding match_scheme_def l_def Let_def by (auto split: if_splits)
  have px: "take (length l) xs = l"
    using ascii_prefix_back [OF assms(1) py] assms(3) by (simp add: l_def)
  have d: "list_all2 subst_rel (drop (length l) xs) (drop (length l) ys)"
    using assms(1) by (rule list_all2_dropI)
  define kx where "kx = length (takeWhile (\<lambda>r. \<not> re_space r) (drop (length l) xs))"
  define ky where "ky = length (takeWhile (\<lambda>r. \<not> re_space r) (drop (length l) ys))"
  have t: "ky = kx"
    unfolding kx_def ky_def by (rule takeWhile_rel [OF d]) (simp add: subst_rel_space)
  have mx: "match_scheme sch xs = (if 0 < kx then Some (length l + kx) else None)"
    unfolding match_scheme_def Let_def l_def [symmetric] kx_def [symmetric]
    by (simp only: px refl if_True)
  have my: "match_scheme sch ys = (if 0 < ky then Some (length l + ky) else None)"
    unfolding match_scheme_def Let_def l_def [symmetric] ky_def [symmetric]
    by (simp only: py refl if_True)
  show ?thesis using assms(2) unfolding mx my t by simp
qed

lemma match_scheme_length:
  "match_scheme sch xs = Some n \<Longrightarrow> length (runes_of_ascii sch) < n"
  unfolding match_scheme_def Let_def by (auto split: if_splits)

lemma match_scheme_forth:
  assumes "list_all2 subst_rel xs ys" "match_scheme sch xs = Some n" "take n ys = take n xs"
  shows "match_scheme sch ys = Some n"
proof -
  define l where "l = runes_of_ascii sch"
  have ln: "length l < n" using match_scheme_length [OF assms(2)] by (simp add: l_def)
  have px: "take (length l) xs = l"
    using assms(2) unfolding match_scheme_def l_def Let_def by (auto split: if_splits)
  have "take (length l) ys = take (length l) (take n ys)" using ln by (simp add: min_def)
  also have "\<dots> = take (length l) (take n xs)" using assms(3) by simp
  also have "\<dots> = take (length l) xs" using ln by (simp add: min_def)
  finally have py: "take (length l) ys = l" using px by simp
  have d: "list_all2 subst_rel (drop (length l) xs) (drop (length l) ys)"
    using assms(1) by (rule list_all2_dropI)
  define kx where "kx = length (takeWhile (\<lambda>r. \<not> re_space r) (drop (length l) xs))"
  define ky where "ky = length (takeWhile (\<lambda>r. \<not> re_space r) (drop (length l) ys))"
  have t: "ky = kx"
    unfolding kx_def ky_def by (rule takeWhile_rel [OF d]) (simp add: subst_rel_space)
  have mx: "match_scheme sch xs = (if 0 < kx then Some (length l + kx) else None)"
    unfolding match_scheme_def Let_def l_def [symmetric] kx_def [symmetric]
    by (simp only: px refl if_True)
  have my: "match_scheme sch ys = (if 0 < ky then Some (length l + ky) else None)"
    unfolding match_scheme_def Let_def l_def [symmetric] ky_def [symmetric]
    by (simp only: py refl if_True)
  show ?thesis using assms(2) unfolding mx my t by simp
qed

lemma scheme_ascii:
  "\<forall>c\<in>set (runes_of_ascii ''https://''). c < 0x80"
  "\<forall>c\<in>set (runes_of_ascii ''http://''). c < 0x80"
  "\<forall>c\<in>set (runes_of_ascii ''ftp://''). c < 0x80"
  "\<forall>c\<in>set (runes_of_ascii ''mailto:''). c < 0x80"
  by (simp_all add: runes_of_ascii_def)

lemma match_scheme_None:
  assumes "list_all2 subst_rel xs ys" "match_scheme sch xs = None"
    "\<forall>c\<in>set (runes_of_ascii sch). c < 0x80"
  shows "match_scheme sch ys = None"
proof (cases "match_scheme sch ys")
  case None
  then show ?thesis .
next
  case (Some n)
  then show ?thesis using match_scheme_back [OF assms(1) Some assms(3)] assms(2) by simp
qed

lemma urlPattern_positive: "urlPattern xs = Some n \<Longrightarrow> 0 < n"
  unfolding urlPattern_def
  by (auto split: option.splits dest: match_scheme_length)

lemma urlPattern_None:
  assumes "list_all2 subst_rel xs ys" "urlPattern xs = None"
  shows "urlPattern ys = None"
proof -
  have n: "match_scheme ''https://'' xs = None" "match_scheme ''http://'' xs = None"
    "match_scheme ''ftp://'' xs = None" "match_scheme ''mailto:'' xs = None"
    using assms(2) unfolding urlPattern_def by (auto split: option.splits)
  show ?thesis
    unfolding urlPattern_def
    using match_scheme_None [OF assms(1) n(1) scheme_ascii(1)]
      match_scheme_None [OF assms(1) n(2) scheme_ascii(2)]
      match_scheme_None [OF assms(1) n(3) scheme_ascii(3)]
      match_scheme_None [OF assms(1) n(4) scheme_ascii(4)]
    by simp
qed

lemma urlPattern_Some:
  assumes "list_all2 subst_rel xs ys" "urlPattern xs = Some n" "take n ys = take n xs"
  shows "urlPattern ys = Some n"
proof -
  note N = match_scheme_None [OF assms(1)]
  note S = match_scheme_forth [OF assms(1) _ assms(3)]
  show ?thesis
  proof (cases "match_scheme ''https://'' xs")
    case (Some m)
    then have "m = n" using assms(2) by (simp add: urlPattern_def)
    then show ?thesis using S [of "''https://''"] Some by (simp add: urlPattern_def)
  next
    case n1: None
    note y1 = N [OF n1 scheme_ascii(1)]
    show ?thesis
    proof (cases "match_scheme ''http://'' xs")
      case (Some m)
      then have "m = n" using assms(2) n1 by (simp add: urlPattern_def)
      then show ?thesis using S [of "''http://''"] Some y1 by (simp add: urlPattern_def)
    next
      case n2: None
      note y2 = N [OF n2 scheme_ascii(2)]
      show ?thesis
      proof (cases "match_scheme ''ftp://'' xs")
        case (Some m)
        then have "m = n" using assms(2) n1 n2 by (simp add: urlPattern_def)
        then show ?thesis using S [of "''ftp://''"] Some y1 y2 by (simp add: urlPattern_def)
      next
        case n3: None
        note y3 = N [OF n3 scheme_ascii(3)]
        have "match_scheme ''mailto:'' xs = Some n"
          using assms(2) n1 n2 n3 by (simp add: urlPattern_def)
        then show ?thesis using S [of "''mailto:''"] y1 y2 y3 by (simp add: urlPattern_def)
      qed
    qed
  qed
qed

lemma markerPattern_rel:
  assumes "list_all2 subst_rel xs ys"
  shows "markerPattern ys = markerPattern xs"
proof (cases xs)
  case Nil
  then have "ys = []" using assms by simp
  then show ?thesis using Nil by (simp add: markerPattern_def)
next
  case (Cons x xs')
  then obtain y ys' where ys: "ys = y # ys'" and r: "subst_rel x y"
    and rs: "list_all2 subst_rel xs' ys'"
    using assms by (auto simp: list_all2_Cons1)
  have t: "length (takeWhile (\<lambda>r. r \<noteq> 0x7D) ys') = length (takeWhile (\<lambda>r. r \<noteq> 0x7D) xs')"
    by (rule takeWhile_rel [OF rs]) (simp add: subst_rel_close)
  have l: "length ys' = length xs'" using rs by (simp add: list_all2_lengthD)
  show ?thesis
    unfolding Cons ys markerPattern_def using subst_rel_open [OF r] t l by simp
qed

lemma scan_marker_rel:
  "list_all2 subst_rel xs ys \<Longrightarrow>
   scan_mask markerPattern k ys = scan_mask markerPattern k xs"
proof (induction xs ys arbitrary: k rule: list_all2_induct)
  case Nil
  show ?case by simp
next
  case (Cons x xs y ys)
  have m: "markerPattern (y # ys) = markerPattern (x # xs)"
    by (rule markerPattern_rel) (simp add: Cons.hyps)
  show ?case
  proof (cases k)
    case 0
    show ?thesis unfolding 0 using m Cons.IH by (simp split: option.splits nat.splits)
  next
    case (Suc k')
    show ?thesis unfolding Suc using Cons.IH by simp
  qed
qed

lemma scan_url_rel:
  "list_all2 subst_rel xs ys \<Longrightarrow>
   (\<And>i. i < length xs \<Longrightarrow> scan_mask urlPattern k xs ! i \<Longrightarrow> ys ! i = xs ! i) \<Longrightarrow>
   scan_mask urlPattern k ys = scan_mask urlPattern k xs"
proof (induction xs ys arbitrary: k rule: list_all2_induct)
  case Nil
  show ?case by simp
next
  case (Cons x xs y ys)
  have rel: "list_all2 subst_rel (x # xs) (y # ys)" using Cons.hyps by simp
  have len: "length ys = length xs" using Cons.hyps(2) by (simp add: list_all2_lengthD)
  show ?case
  proof (cases k)
    case (Suc k')
    have "\<And>i. i < length xs \<Longrightarrow> scan_mask urlPattern k' xs ! i \<Longrightarrow> ys ! i = xs ! i"
    proof -
      fix i assume i: "i < length xs" "scan_mask urlPattern k' xs ! i"
      show "ys ! i = xs ! i" using Cons.prems [of "Suc i"] i unfolding Suc by simp
    qed
    then have "scan_mask urlPattern k' ys = scan_mask urlPattern k' xs" by (rule Cons.IH)
    then show ?thesis unfolding Suc by simp
  next
    case 0
    show ?thesis
    proof (cases "urlPattern (x # xs)")
      case None
      have y: "urlPattern (y # ys) = None" by (rule urlPattern_None [OF rel None])
      have "\<And>i. i < length xs \<Longrightarrow> scan_mask urlPattern 0 xs ! i \<Longrightarrow> ys ! i = xs ! i"
      proof -
        fix i assume i: "i < length xs" "scan_mask urlPattern 0 xs ! i"
        show "ys ! i = xs ! i" using Cons.prems [of "Suc i"] i None unfolding 0 by simp
      qed
      then have "scan_mask urlPattern 0 ys = scan_mask urlPattern 0 xs" by (rule Cons.IH)
      then show ?thesis unfolding 0 using None y by simp
    next
      case (Some n)
      have "0 < n" by (rule urlPattern_positive [OF Some])
      then obtain m where n: "n = Suc m" by (cases n) auto
      have mask: "scan_mask urlPattern 0 (x # xs) = True # scan_mask urlPattern m xs"
        using Some unfolding n by simp
      have run: "scan_mask urlPattern m xs
                 = replicate (min m (length xs)) True @ scan_mask urlPattern 0 (drop m xs)"
        by (rule scan_mask_running)
      have same: "\<And>i. i < length (x # xs) \<Longrightarrow> i < n \<Longrightarrow> (y # ys) ! i = (x # xs) ! i"
      proof -
        fix i assume i: "i < length (x # xs)" "i < n"
        have "scan_mask urlPattern 0 (x # xs) ! i"
        proof (cases i)
          case 0
          then show ?thesis unfolding mask by simp
        next
          case (Suc j)
          have "j < min m (length xs)" using i Suc n by simp
          then have "scan_mask urlPattern m xs ! j"
            by (subst run) (simp add: nth_append)
          then show ?thesis unfolding mask Suc by simp
        qed
        then show "(y # ys) ! i = (x # xs) ! i" using Cons.prems [of i] i(1) unfolding 0 by simp
      qed
      have tk: "take n (y # ys) = take n (x # xs)"
      proof (rule nth_equalityI)
        show "length (take n (y # ys)) = length (take n (x # xs))" using len by simp
      next
        fix i assume "i < length (take n (y # ys))"
        then have i: "i < n" "i < length (x # xs)" using len by simp_all
        show "take n (y # ys) ! i = take n (x # xs) ! i"
          using same [OF i(2) i(1)] i(1) by simp
      qed
      have y: "urlPattern (y # ys) = Some n" by (rule urlPattern_Some [OF rel Some tk])
      have "\<And>i. i < length xs \<Longrightarrow> scan_mask urlPattern m xs ! i \<Longrightarrow> ys ! i = xs ! i"
      proof -
        fix i assume i: "i < length xs" "scan_mask urlPattern m xs ! i"
        show "ys ! i = xs ! i" using Cons.prems [of "Suc i"] i unfolding 0 mask by simp
      qed
      then have "scan_mask urlPattern m ys = scan_mask urlPattern m xs" by (rule Cons.IH)
      then show ?thesis unfolding 0 using Some y n by simp
    qed
  qed
qed

lemma length_skip_mask [simp]: "length (skip_mask rs) = length rs"
  by (simp add: skip_mask_def)

lemma skip_mask_nth:
  "i < length rs \<Longrightarrow>
   skip_mask rs ! i = (scan_mask urlPattern 0 rs ! i \<or> scan_mask markerPattern 0 rs ! i)"
  by (simp add: skip_mask_def)

lemma length_convert_runes [simp]: "length (convert_runes tbl rs) = length rs"
  by (simp add: convert_runes_def)

lemma convert_runes_nth:
  "i < length rs \<Longrightarrow>
   convert_runes tbl rs ! i = (if skip_mask rs ! i then rs ! i else substitute tbl rs i)"
  by (simp add: convert_runes_def)

lemma substitute_rel: "subst_rel (rs ! i) (substitute tbl rs i)"
  by (simp add: subst_rel_def substitute_def Let_def)

lemma subst_rel_refl: "subst_rel x x"
  by (simp add: subst_rel_def)

lemma convert_runes_rel: "list_all2 subst_rel rs (convert_runes tbl rs)"
  by (rule list_all2_all_nthI) (simp_all add: convert_runes_nth substitute_rel subst_rel_refl)

lemma skip_mask_convert_runes: "skip_mask (convert_runes tbl rs) = skip_mask rs"
proof -
  have u: "scan_mask urlPattern 0 (convert_runes tbl rs) = scan_mask urlPattern 0 rs"
  proof (rule scan_url_rel [OF convert_runes_rel])
    fix i assume "i < length rs" "scan_mask urlPattern 0 rs ! i"
    then show "convert_runes tbl rs ! i = rs ! i"
      by (simp add: convert_runes_nth skip_mask_nth)
  qed
  have m: "scan_mask markerPattern 0 (convert_runes tbl rs) = scan_mask markerPattern 0 rs"
    by (rule scan_marker_rel [OF convert_runes_rel])
  show ?thesis unfolding skip_mask_def u m ..
qed

lemma IsDigit_rel: "IsDigit tbl x \<Longrightarrow> subst_rel x y \<Longrightarrow> y = x"
  by (auto simp: IsDigit_def subst_rel_def split: if_splits)

lemma substitute_fixed:
  assumes "i < length rs" "\<not> skip_mask rs ! i"
  shows "substitute tbl (convert_runes tbl rs) i = convert_runes tbl rs ! i"
proof -
  define out where "out = convert_runes tbl rs"
  have o: "out ! i = substitute tbl rs i"
    using assms by (simp add: out_def convert_runes_nth)
  have rel: "\<And>j. j < length rs \<Longrightarrow> subst_rel (rs ! j) (out ! j)"
    using convert_runes_rel [of rs tbl] unfolding out_def by (simp add: list_all2_nthD)
  have len: "length out = length rs" by (simp add: out_def)
  show ?thesis
  proof (cases "rs ! i = 0x3A \<and> 0 < i \<and> i < length rs - 1 \<and> IsDigit tbl (rs ! (i - 1))
                 \<and> IsDigit tbl (rs ! (i + 1))")
    case True
    have c: "out ! i = 0x3A" using o True by (simp add: substitute_def)
    have a: "out ! (i - 1) = rs ! (i - 1)"
      by (rule IsDigit_rel [of tbl]) (use True rel [of "i - 1"] assms(1) in auto)
    have b: "out ! (i + 1) = rs ! (i + 1)"
      by (rule IsDigit_rel [of tbl]) (use True rel [of "i + 1"] in auto)
    have "substitute tbl out i = 0x3A"
      using True c a b len by (simp add: substitute_def)
    then show ?thesis using c by (simp add: out_def)
  next
    case False
    have "out ! i \<noteq> 0x2C \<and> out ! i \<noteq> 0x3B \<and> out ! i \<noteq> 0x3F \<and> out ! i \<noteq> 0x28
          \<and> out ! i \<noteq> 0x29 \<and> out ! i \<noteq> 0x3A"
      using False unfolding o substitute_def Let_def by (auto split: if_splits)
    then have "substitute tbl out i = out ! i" by (simp add: substitute_def)
    then show ?thesis by (simp add: out_def)
  qed
qed

lemma convert_runes_idem:
  "convert_runes tbl (convert_runes tbl rs) = convert_runes tbl rs"
proof (rule nth_equalityI)
  show "length (convert_runes tbl (convert_runes tbl rs)) = length (convert_runes tbl rs)"
    by simp
next
  fix i assume "i < length (convert_runes tbl (convert_runes tbl rs))"
  then have i: "i < length rs" by simp
  show "convert_runes tbl (convert_runes tbl rs) ! i = convert_runes tbl rs ! i"
    using i substitute_fixed [OF i, of tbl]
    by (simp add: convert_runes_nth [of i "convert_runes tbl rs"] skip_mask_convert_runes)
qed

lemma substitute_valid: "valid_rune (rs ! i) \<Longrightarrow> valid_rune (substitute tbl rs i)"
  by (simp add: substitute_def valid_rune_def Let_def)

lemma convert_runes_valid:
  assumes "list_all valid_rune rs"
  shows "list_all valid_rune (convert_runes tbl rs)"
proof -
  have "\<And>i. i < length rs \<Longrightarrow> valid_rune (rs ! i)"
    using assms by (simp add: list_all_length)
  then show ?thesis
    by (simp add: list_all_length convert_runes_nth substitute_valid)
qed

lemma length_encode_take:
  "length (encode_runes (take i rs)) = sum_list (map (\<lambda>r. length (EncodeRune r)) (take i rs))"
  by (simp add: encode_runes_def length_concat comp_def)

lemma convert_rune_substitute:
  "convert_rune tbl spans rs i =
     (if inSkip spans (length (encode_runes (take i rs))) then rs ! i else substitute tbl rs i)"
  by (simp add: convert_rune_def substitute_def Let_def)

lemma inSkip_append: "inSkip (a @ b) p = (inSkip a p \<or> inSkip b p)"
  by (simp add: inSkip_def)

lemma convertPunctuation_runes:
  assumes "list_all valid_rune rs"
  shows "convertPunctuation tbl (encode_runes rs) = encode_runes (convert_runes tbl rs)"
proof -
  define ds where "ds = map (\<lambda>r. (r, length (EncodeRune r))) rs"
  have dec: "decode (encode_runes rs) = ds"
    unfolding ds_def by (rule decode_encode_runes [OF assms])
  have fst: "map fst ds = rs" by (simp add: ds_def comp_def)
  have len: "length ds = length rs" by (simp add: ds_def)
  have pos: "\<forall>d\<in>set ds. 0 < snd d" by (auto simp: ds_def EncodeRune_nonempty)
  have off: "\<And>i. length (encode_runes (take i rs)) = 0 + sum_list (map snd (take i ds))"
    by (simp add: length_encode_take ds_def take_map comp_def)
  define spans where
    "spans = FindAllStringIndex urlPattern 0 ds @ FindAllStringIndex markerPattern 0 ds"
  have sk: "\<And>i. i < length rs \<Longrightarrow>
              inSkip spans (length (encode_runes (take i rs))) = skip_mask rs ! i"
  proof -
    fix i assume i: "i < length rs"
    then have i': "i < length ds" by (simp add: len)
    show "inSkip spans (length (encode_runes (take i rs))) = skip_mask rs ! i"
      unfolding spans_def inSkip_append off
        inSkip_scan_mask [OF pos i'] fst skip_mask_nth [OF i] ..
  qed
  have "map (convert_rune tbl spans rs) [0..<length rs] = convert_runes tbl rs"
    unfolding convert_runes_def
    by (rule map_cong [OF refl]) (simp add: convert_rune_substitute sk)
  then show ?thesis
    unfolding convertPunctuation_def Let_def dec fst spans_def [symmetric] by simp
qed

section \<open>The excluded spans\<close>

lemma takeWhile_all_nth:
  assumes "j < length xs"
  shows "(\<forall>k\<le>j. P (xs ! k)) = (j < length (takeWhile P xs))"
proof
  assume a: "\<forall>k\<le>j. P (xs ! k)"
  have "Suc j \<le> length (takeWhile P xs)"
    by (rule length_takeWhile_less_P_nth) (use a assms in auto)
  then show "j < length (takeWhile P xs)" by simp
next
  assume b: "j < length (takeWhile P xs)"
  show "\<forall>k\<le>j. P (xs ! k)"
  proof (intro allI impI)
    fix k assume "k \<le> j"
    then have k: "k < length (takeWhile P xs)" using b by simp
    then have "takeWhile P xs ! k \<in> set (takeWhile P xs)" by simp
    then have "P (takeWhile P xs ! k)" by (rule set_takeWhileD [THEN conjunct2])
    then show "P (xs ! k)" using takeWhile_nth [OF k] by simp
  qed
qed

lemma takeWhile_first:
  assumes "b < length xs" "\<not> P (xs ! b)" "\<forall>j<b. P (xs ! j)"
  shows "length (takeWhile P xs) = b"
proof -
  have le: "b \<le> length (takeWhile P xs)"
    by (rule length_takeWhile_less_P_nth) (use assms in auto)
  have "\<not> b < length (takeWhile P xs)"
  proof
    assume "b < length (takeWhile P xs)"
    then have "\<forall>k\<le>b. P (xs ! k)" using takeWhile_all_nth [OF assms(1), of P] by simp
    then show False using assms(2) by simp
  qed
  then show ?thesis using le by simp
qed

lemma takeWhile_positive:
  "(0 < length (takeWhile P (drop l rs))) = (l < length rs \<and> P (rs ! l))"
proof (cases "l < length rs")
  case True
  then obtain y ys where d: "drop l rs = y # ys" by (cases "drop l rs") auto
  have "y = rs ! l" using d True by (metis Cons_nth_drop_Suc list.inject)
  then show ?thesis using True unfolding d by simp
next
  case False
  then show ?thesis by simp
qed

lemma match_scheme_iff:
  "(match_scheme sch rs \<noteq> None) =
     (take (length (runes_of_ascii sch)) rs = runes_of_ascii sch
       \<and> length (runes_of_ascii sch) < length rs
       \<and> \<not> re_space (rs ! length (runes_of_ascii sch)))"
  unfolding match_scheme_def Let_def
  using takeWhile_positive [of "\<lambda>r. \<not> re_space r" "length (runes_of_ascii sch)" rs]
  by auto

lemma urlPattern_iff: "(urlPattern rs \<noteq> None) = spec_url_at rs 0"
proof -
  have "(urlPattern rs \<noteq> None) =
        (match_scheme ''https://'' rs \<noteq> None \<or> match_scheme ''http://'' rs \<noteq> None
          \<or> match_scheme ''ftp://'' rs \<noteq> None \<or> match_scheme ''mailto:'' rs \<noteq> None)"
    unfolding urlPattern_def by (auto split: option.splits)
  then show ?thesis
    unfolding match_scheme_iff spec_url_at_def spec_schemes_def by simp
qed

lemma scheme_no_space:
  "\<forall>c\<in>set (runes_of_ascii ''https://''). \<not> re_space c"
  "\<forall>c\<in>set (runes_of_ascii ''http://''). \<not> re_space c"
  "\<forall>c\<in>set (runes_of_ascii ''ftp://''). \<not> re_space c"
  "\<forall>c\<in>set (runes_of_ascii ''mailto:''). \<not> re_space c"
  by (simp_all add: runes_of_ascii_def re_space_def)

lemma match_scheme_extent:
  assumes "match_scheme sch rs = Some n" "\<forall>c\<in>set (runes_of_ascii sch). \<not> re_space c"
  shows "n = length (takeWhile (\<lambda>r. \<not> re_space r) rs)"
proof -
  define l where "l = runes_of_ascii sch"
  have p: "take (length l) rs = l"
    using assms(1) unfolding match_scheme_def l_def Let_def by (auto split: if_splits)
  have n: "n = length l + length (takeWhile (\<lambda>r. \<not> re_space r) (drop (length l) rs))"
    using assms(1) unfolding match_scheme_def l_def Let_def by (auto split: if_splits)
  have "rs = l @ drop (length l) rs" using p by (metis append_take_drop_id)
  then have "takeWhile (\<lambda>r. \<not> re_space r) rs
             = takeWhile (\<lambda>r. \<not> re_space r) (l @ drop (length l) rs)" by simp
  also have "\<dots> = l @ takeWhile (\<lambda>r. \<not> re_space r) (drop (length l) rs)"
    by (rule takeWhile_append2) (use assms(2) in \<open>simp add: l_def\<close>)
  finally show ?thesis using n by simp
qed

lemma urlPattern_extent:
  assumes "urlPattern rs = Some n"
  shows "n = length (takeWhile (\<lambda>r. \<not> re_space r) rs)"
  using assms unfolding urlPattern_def
  by (auto split: option.splits
      dest: match_scheme_extent [OF _ scheme_no_space(1)] match_scheme_extent [OF _ scheme_no_space(2)]
        match_scheme_extent [OF _ scheme_no_space(3)] match_scheme_extent [OF _ scheme_no_space(4)])

lemma urlPattern_head:
  assumes "urlPattern (x # xs) = Some n"
  shows "\<not> re_space x \<and> n = Suc (length (takeWhile (\<lambda>r. \<not> re_space r) xs))"
proof -
  have n: "n = length (takeWhile (\<lambda>r. \<not> re_space r) (x # xs))"
    by (rule urlPattern_extent [OF assms])
  have "0 < n" by (rule urlPattern_positive [OF assms])
  then have "\<not> re_space x" using n by (auto split: if_splits)
  then show ?thesis using n by simp
qed

lemma spec_url_at_Suc: "spec_url_at (x # xs) (Suc a) = spec_url_at xs a"
  by (simp add: spec_url_at_def)

lemma spec_in_url_0: "spec_in_url (x # xs) 0 = (urlPattern (x # xs) \<noteq> None)"
proof -
  have "spec_in_url (x # xs) 0 = (spec_url_at (x # xs) 0 \<and> \<not> re_space x)"
    by (auto simp: spec_in_url_def)
  also have "\<dots> = (urlPattern (x # xs) \<noteq> None)"
    unfolding urlPattern_iff [symmetric] using urlPattern_head [of x xs] by auto
  finally show ?thesis .
qed

lemma spec_in_url_Suc:
  assumes "j < length xs"
  shows "spec_in_url (x # xs) (Suc j) =
           ((urlPattern (x # xs) \<noteq> None \<and> j < length (takeWhile (\<lambda>r. \<not> re_space r) xs))
            \<or> spec_in_url xs j)"
proof -
  have split: "\<And>Q. (\<exists>a\<le>Suc j. Q a) = (Q 0 \<or> (\<exists>a\<le>j. Q (Suc a)))"
  proof -
    fix Q :: "nat \<Rightarrow> bool"
    show "(\<exists>a\<le>Suc j. Q a) = (Q 0 \<or> (\<exists>a\<le>j. Q (Suc a)))"
    proof
      assume "\<exists>a\<le>Suc j. Q a"
      then obtain a where a: "a \<le> Suc j" "Q a" by auto
      show "Q 0 \<or> (\<exists>a\<le>j. Q (Suc a))"
      proof (cases a)
        case 0
        then show ?thesis using a by simp
      next
        case (Suc a')
        then show ?thesis using a by auto
      qed
    next
      assume "Q 0 \<or> (\<exists>a\<le>j. Q (Suc a))"
      then show "\<exists>a\<le>Suc j. Q a" by auto
    qed
  qed
  have zero: "(spec_url_at (x # xs) 0 \<and> (\<forall>k. 0 \<le> k \<and> k \<le> Suc j \<longrightarrow> \<not> re_space ((x # xs) ! k)))
              = (urlPattern (x # xs) \<noteq> None \<and> j < length (takeWhile (\<lambda>r. \<not> re_space r) xs))"
  proof -
    have "(\<forall>k. 0 \<le> k \<and> k \<le> Suc j \<longrightarrow> \<not> re_space ((x # xs) ! k))
          = (\<not> re_space x \<and> (\<forall>k\<le>j. \<not> re_space (xs ! k)))"
    proof
      assume a: "\<forall>k. 0 \<le> k \<and> k \<le> Suc j \<longrightarrow> \<not> re_space ((x # xs) ! k)"
      have "\<not> re_space x" using a [rule_format, of 0] by simp
      moreover have "\<forall>k\<le>j. \<not> re_space (xs ! k)"
      proof (intro allI impI)
        fix k assume "k \<le> j"
        then show "\<not> re_space (xs ! k)" using a [rule_format, of "Suc k"] by simp
      qed
      ultimately show "\<not> re_space x \<and> (\<forall>k\<le>j. \<not> re_space (xs ! k))" by simp
    next
      assume b: "\<not> re_space x \<and> (\<forall>k\<le>j. \<not> re_space (xs ! k))"
      show "\<forall>k. 0 \<le> k \<and> k \<le> Suc j \<longrightarrow> \<not> re_space ((x # xs) ! k)"
      proof (intro allI impI)
        fix k assume k: "0 \<le> k \<and> k \<le> Suc j"
        show "\<not> re_space ((x # xs) ! k)" using b k by (cases k) auto
      qed
    qed
    also have "\<dots> = (\<not> re_space x \<and> j < length (takeWhile (\<lambda>r. \<not> re_space r) xs))"
      using takeWhile_all_nth [OF assms, of "\<lambda>r. \<not> re_space r"] by simp
    finally show ?thesis
      unfolding urlPattern_iff [symmetric] using urlPattern_head [of x xs] by auto
  qed
  have succ: "\<And>a. (\<forall>k. Suc a \<le> k \<and> k \<le> Suc j \<longrightarrow> \<not> re_space ((x # xs) ! k))
                 = (\<forall>k. a \<le> k \<and> k \<le> j \<longrightarrow> \<not> re_space (xs ! k))"
  proof -
    fix a
    show "(\<forall>k. Suc a \<le> k \<and> k \<le> Suc j \<longrightarrow> \<not> re_space ((x # xs) ! k))
          = (\<forall>k. a \<le> k \<and> k \<le> j \<longrightarrow> \<not> re_space (xs ! k))"
    proof
      assume a: "\<forall>k. Suc a \<le> k \<and> k \<le> Suc j \<longrightarrow> \<not> re_space ((x # xs) ! k)"
      show "\<forall>k. a \<le> k \<and> k \<le> j \<longrightarrow> \<not> re_space (xs ! k)"
      proof (intro allI impI)
        fix k assume "a \<le> k \<and> k \<le> j"
        then show "\<not> re_space (xs ! k)" using a [rule_format, of "Suc k"] by simp
      qed
    next
      assume b: "\<forall>k. a \<le> k \<and> k \<le> j \<longrightarrow> \<not> re_space (xs ! k)"
      show "\<forall>k. Suc a \<le> k \<and> k \<le> Suc j \<longrightarrow> \<not> re_space ((x # xs) ! k)"
      proof (intro allI impI)
        fix k assume k: "Suc a \<le> k \<and> k \<le> Suc j"
        then obtain k' where "k = Suc k'" by (cases k) auto
        then show "\<not> re_space ((x # xs) ! k)" using b [rule_format, of k'] k by simp
      qed
    qed
  qed
  show ?thesis
    unfolding spec_in_url_def [of "x # xs"] split zero spec_url_at_Suc succ
    unfolding spec_in_url_def [symmetric] ..
qed

lemma scan_url_spec:
  "k = 0 \<or> k = length (takeWhile (\<lambda>r. \<not> re_space r) rs) \<Longrightarrow> i < length rs \<Longrightarrow>
   scan_mask urlPattern k rs ! i = (i < k \<or> spec_in_url rs i)"
proof (induction rs arbitrary: k i)
  case Nil
  then show ?case by simp
next
  case (Cons x xs)
  define m where "m = length (takeWhile (\<lambda>r. \<not> re_space r) xs)"
  show ?case
  proof (cases k)
    case (Suc k')
    have k: "Suc k' = length (takeWhile (\<lambda>r. \<not> re_space r) (x # xs))"
      using Cons.prems(1) Suc by simp
    then have x: "\<not> re_space x" by (auto split: if_splits)
    then have k': "k' = m" using k by (simp add: m_def)
    show ?thesis
    proof (cases i)
      case 0
      show ?thesis unfolding Suc 0 by simp
    next
      case i: (Suc j)
      have j: "j < length xs" using Cons.prems(2) i by simp
      have IH: "scan_mask urlPattern k' xs ! j = (j < k' \<or> spec_in_url xs j)"
        by (rule Cons.IH [OF _ j]) (simp add: k' m_def)
      show ?thesis
        unfolding Suc i spec_in_url_Suc [OF j] using IH k' by (auto simp: m_def)
    qed
  next
    case 0
    show ?thesis
    proof (cases "urlPattern (x # xs)")
      case None
      show ?thesis
      proof (cases i)
        case i: 0
        show ?thesis unfolding 0 i spec_in_url_0 using None by simp
      next
        case i: (Suc j)
        have j: "j < length xs" using Cons.prems(2) i by simp
        have IH: "scan_mask urlPattern 0 xs ! j = (j < 0 \<or> spec_in_url xs j)"
          by (rule Cons.IH [OF _ j]) simp
        show ?thesis
          unfolding 0 i spec_in_url_Suc [OF j] using IH None by simp
      qed
    next
      case (Some n)
      have n: "n = Suc m" using urlPattern_head [OF Some] by (simp add: m_def)
      show ?thesis
      proof (cases i)
        case i: 0
        show ?thesis unfolding 0 i spec_in_url_0 using Some n by simp
      next
        case i: (Suc j)
        have j: "j < length xs" using Cons.prems(2) i by simp
        have IH: "scan_mask urlPattern m xs ! j = (j < m \<or> spec_in_url xs j)"
          by (rule Cons.IH [OF _ j]) (simp add: m_def)
        show ?thesis
          unfolding 0 i spec_in_url_Suc [OF j] using IH Some n by (simp add: m_def)
      qed
    qed
  qed
qed

lemma markerPattern_iff:
  "(markerPattern (x # xs) \<noteq> None) =
     (x = 0x7B \<and> length (takeWhile (\<lambda>r. r \<noteq> 0x7D) xs) < length xs)"
  by (simp add: markerPattern_def Let_def)

lemma markerPattern_Some:
  "markerPattern (x # xs) = Some n \<Longrightarrow> n = Suc (Suc (length (takeWhile (\<lambda>r. r \<noteq> 0x7D) xs)))"
  by (auto simp: markerPattern_def Let_def split: if_splits)

lemma closing_exists:
  assumes "b < length xs" "xs ! b = (0x7D :: rune)"
  shows "length (takeWhile (\<lambda>r. r \<noteq> 0x7D) xs) < length xs"
proof (rule ccontr)
  assume "\<not> length (takeWhile (\<lambda>r. r \<noteq> 0x7D) xs) < length xs"
  then have "b < length (takeWhile (\<lambda>r. r \<noteq> 0x7D) xs)" using assms(1) by simp
  then have "\<forall>k\<le>b. xs ! k \<noteq> 0x7D"
    using takeWhile_all_nth [OF assms(1), of "\<lambda>r. r \<noteq> 0x7D"] by simp
  then show False using assms(2) by simp
qed

lemma spec_in_marker_0: "spec_in_marker (x # xs) 0 = (markerPattern (x # xs) \<noteq> None)"
proof
  assume "spec_in_marker (x # xs) 0"
  then obtain b where b: "b < length (x # xs)" "x = 0x7B" "(x # xs) ! b = 0x7D"
    by (auto simp: spec_in_marker_def)
  then obtain b' where b': "b = Suc b'" by (cases b) auto
  have "length (takeWhile (\<lambda>r. r \<noteq> 0x7D) xs) < length xs"
    by (rule closing_exists [of b']) (use b b' in auto)
  then show "markerPattern (x # xs) \<noteq> None" using b(2) markerPattern_iff [of x xs] by simp
next
  assume "markerPattern (x # xs) \<noteq> None"
  then have x: "x = 0x7B" and n: "length (takeWhile (\<lambda>r. r \<noteq> 0x7D) xs) < length xs"
    using markerPattern_iff [of x xs] by simp_all
  define n where "n = length (takeWhile (\<lambda>r. r \<noteq> 0x7D) xs)"
  have c: "xs ! n = 0x7D"
    using nth_length_takeWhile [OF n] by (simp add: n_def)
  have f: "\<forall>j. 0 < j \<and> j < Suc n \<longrightarrow> (x # xs) ! j \<noteq> 0x7D"
  proof (intro allI impI)
    fix j assume j: "0 < j \<and> j < Suc n"
    then obtain j' where j': "j = Suc j'" by (cases j) auto
    have "j' < n" using j j' by simp
    then have "\<forall>k\<le>j'. xs ! k \<noteq> 0x7D"
      using takeWhile_all_nth [of j' xs "\<lambda>r. r \<noteq> 0x7D"] n by (simp add: n_def)
    then show "(x # xs) ! j \<noteq> 0x7D" unfolding j' by simp
  qed
  show "spec_in_marker (x # xs) 0"
    unfolding spec_in_marker_def
    by (rule exI [of _ 0], simp, rule exI [of _ "Suc n"]) (use x c f n in \<open>simp add: n_def\<close>)
qed

lemma spec_in_marker_Suc:
  assumes "j < length xs"
  shows "spec_in_marker (x # xs) (Suc j) =
           ((markerPattern (x # xs) \<noteq> None \<and> j \<le> length (takeWhile (\<lambda>r. r \<noteq> 0x7D) xs))
            \<or> spec_in_marker xs j)"
proof
  assume "spec_in_marker (x # xs) (Suc j)"
  then obtain a b where ab: "a \<le> Suc j" "Suc j \<le> b" "b < length (x # xs)"
      "(x # xs) ! a = 0x7B" "(x # xs) ! b = 0x7D"
      "\<forall>k. a < k \<and> k < b \<longrightarrow> (x # xs) ! k \<noteq> 0x7D"
    by (auto simp: spec_in_marker_def)
  obtain b' where b': "b = Suc b'" using ab(2) by (cases b) auto
  have bl: "b' < length xs" and bc: "xs ! b' = 0x7D" using ab(3,5) b' by simp_all
  show "(markerPattern (x # xs) \<noteq> None \<and> j \<le> length (takeWhile (\<lambda>r. r \<noteq> 0x7D) xs))
        \<or> spec_in_marker xs j"
  proof (cases a)
    case 0
    have x: "x = 0x7B" using ab(4) 0 by simp
    have "\<forall>k<b'. xs ! k \<noteq> 0x7D"
    proof (intro allI impI)
      fix k assume "k < b'"
      then show "xs ! k \<noteq> 0x7D" using ab(6) [rule_format, of "Suc k"] 0 b' by simp
    qed
    then have "length (takeWhile (\<lambda>r. r \<noteq> 0x7D) xs) = b'"
      using takeWhile_first [of b' xs "\<lambda>r. r \<noteq> 0x7D"] bl bc by simp
    then show ?thesis using x bl ab(2) b' markerPattern_iff [of x xs] by simp
  next
    case (Suc a')
    have "spec_in_marker xs j"
      unfolding spec_in_marker_def
    proof (rule exI [of _ a'], intro conjI)
      show "a' \<le> j" using ab(1) Suc by simp
      show "\<exists>b\<ge>j. b < length xs \<and> xs ! a' = 0x7B \<and> xs ! b = 0x7D
              \<and> (\<forall>k. a' < k \<and> k < b \<longrightarrow> xs ! k \<noteq> 0x7D)"
      proof (rule exI [of _ b'], intro conjI allI impI)
        show "j \<le> b'" using ab(2) b' by simp
        show "b' < length xs" by (rule bl)
        show "xs ! a' = 0x7B" using ab(4) Suc by simp
        show "xs ! b' = 0x7D" by (rule bc)
      next
        fix k assume "a' < k \<and> k < b'"
        then show "xs ! k \<noteq> 0x7D" using ab(6) [rule_format, of "Suc k"] Suc b' by simp
      qed
    qed
    then show ?thesis by simp
  qed
next
  assume r: "(markerPattern (x # xs) \<noteq> None \<and> j \<le> length (takeWhile (\<lambda>r. r \<noteq> 0x7D) xs))
             \<or> spec_in_marker xs j"
  show "spec_in_marker (x # xs) (Suc j)"
  proof (cases "spec_in_marker xs j")
    case True
    then obtain a b where ab: "a \<le> j" "j \<le> b" "b < length xs" "xs ! a = 0x7B" "xs ! b = 0x7D"
        "\<forall>k. a < k \<and> k < b \<longrightarrow> xs ! k \<noteq> 0x7D"
      by (auto simp: spec_in_marker_def)
    have f: "\<forall>k. Suc a < k \<and> k < Suc b \<longrightarrow> (x # xs) ! k \<noteq> 0x7D"
    proof (intro allI impI)
      fix k assume k: "Suc a < k \<and> k < Suc b"
      then obtain k' where k': "k = Suc k'" by (cases k) auto
      show "(x # xs) ! k \<noteq> 0x7D" using ab(6) [rule_format, of k'] k k' by simp
    qed
    show ?thesis
      unfolding spec_in_marker_def
      by (rule exI [of _ "Suc a"], rule conjI, use ab in simp, rule exI [of _ "Suc b"])
        (use ab f in simp)
  next
    case False
    then have m: "markerPattern (x # xs) \<noteq> None"
      and jn: "j \<le> length (takeWhile (\<lambda>r. r \<noteq> 0x7D) xs)" using r by simp_all
    have x: "x = 0x7B" and n: "length (takeWhile (\<lambda>r. r \<noteq> 0x7D) xs) < length xs"
      using m markerPattern_iff [of x xs] by simp_all
    define n where "n = length (takeWhile (\<lambda>r. r \<noteq> 0x7D) xs)"
    have c: "xs ! n = 0x7D"
      using nth_length_takeWhile [OF n] by (simp add: n_def)
    have f: "\<forall>k. 0 < k \<and> k < Suc n \<longrightarrow> (x # xs) ! k \<noteq> 0x7D"
    proof (intro allI impI)
      fix k assume k: "0 < k \<and> k < Suc n"
      then obtain k' where k': "k = Suc k'" by (cases k) auto
      have "k' < n" using k k' by simp
      then have "\<forall>i\<le>k'. xs ! i \<noteq> 0x7D"
        using takeWhile_all_nth [of k' xs "\<lambda>r. r \<noteq> 0x7D"] n by (simp add: n_def)
      then show "(x # xs) ! k \<noteq> 0x7D" unfolding k' by simp
    qed
    show ?thesis
      unfolding spec_in_marker_def
      by (rule exI [of _ 0], simp, rule exI [of _ "Suc n"]) (use x c f n jn in \<open>simp add: n_def\<close>)
  qed
qed

lemma scan_marker_spec:
  "k = 0 \<or> (k = Suc (length (takeWhile (\<lambda>r. r \<noteq> 0x7D) rs))
            \<and> length (takeWhile (\<lambda>r. r \<noteq> 0x7D) rs) < length rs) \<Longrightarrow>
   i < length rs \<Longrightarrow>
   scan_mask markerPattern k rs ! i = (i < k \<or> spec_in_marker rs i)"
proof (induction rs arbitrary: k i)
  case Nil
  then show ?case by simp
next
  case (Cons x xs)
  define m where "m = length (takeWhile (\<lambda>r. r \<noteq> 0x7D) xs)"
  show ?case
  proof (cases k)
    case (Suc k')
    have k: "k' = length (takeWhile (\<lambda>r. r \<noteq> 0x7D) (x # xs))"
      and l: "length (takeWhile (\<lambda>r. r \<noteq> 0x7D) (x # xs)) < length (x # xs)"
      using Cons.prems(1) Suc by simp_all
    show ?thesis
    proof (cases i)
      case 0
      show ?thesis unfolding Suc 0 by simp
    next
      case i: (Suc j)
      have j: "j < length xs" using Cons.prems(2) i by simp
      show ?thesis
      proof (cases "x = 0x7D")
        case True
        have k0: "k' = 0" using k True by simp
        have nm: "markerPattern (x # xs) = None" using True by (simp add: markerPattern_def)
        have IH: "scan_mask markerPattern 0 xs ! j = (j < 0 \<or> spec_in_marker xs j)"
          by (rule Cons.IH [OF _ j]) simp
        show ?thesis
          unfolding Suc i k0 spec_in_marker_Suc [OF j] using IH nm by simp
      next
        case False
        have k': "k' = Suc m" using k False by (simp add: m_def)
        have lm: "m < length xs" using l False by (simp add: m_def)
        have IH: "scan_mask markerPattern k' xs ! j = (j < k' \<or> spec_in_marker xs j)"
          by (rule Cons.IH [OF _ j]) (use k' lm in \<open>simp add: m_def\<close>)
        show ?thesis
          unfolding Suc i spec_in_marker_Suc [OF j] using IH k' by (auto simp: m_def)
      qed
    qed
  next
    case 0
    show ?thesis
    proof (cases "markerPattern (x # xs)")
      case None
      show ?thesis
      proof (cases i)
        case i: 0
        show ?thesis unfolding 0 i spec_in_marker_0 using None by simp
      next
        case i: (Suc j)
        have j: "j < length xs" using Cons.prems(2) i by simp
        have IH: "scan_mask markerPattern 0 xs ! j = (j < 0 \<or> spec_in_marker xs j)"
          by (rule Cons.IH [OF _ j]) simp
        show ?thesis
          unfolding 0 i spec_in_marker_Suc [OF j] using IH None by simp
      qed
    next
      case (Some n)
      have n: "n = Suc (Suc m)" using markerPattern_Some [OF Some] by (simp add: m_def)
      have "markerPattern (x # xs) \<noteq> None" using Some by simp
      then have lm: "m < length xs" using markerPattern_iff [of x xs] by (simp add: m_def)
      show ?thesis
      proof (cases i)
        case i: 0
        show ?thesis unfolding 0 i spec_in_marker_0 using Some n by simp
      next
        case i: (Suc j)
        have j: "j < length xs" using Cons.prems(2) i by simp
        have IH: "scan_mask markerPattern (Suc m) xs ! j = (j < Suc m \<or> spec_in_marker xs j)"
          by (rule Cons.IH [OF _ j]) (use lm in \<open>simp add: m_def\<close>)
        show ?thesis
          unfolding 0 i spec_in_marker_Suc [OF j] using IH Some n by (auto simp: m_def)
      qed
    qed
  qed
qed

lemma skip_mask_spec:
  "i < length rs \<Longrightarrow> skip_mask rs ! i = (spec_in_url rs i \<or> spec_in_marker rs i)"
  using scan_url_spec [of 0 rs i] scan_marker_spec [of 0 rs i]
  by (simp add: skip_mask_nth)

lemma substitute_spec:
  "substitute tbl rs i =
     (let r = rs ! i
      in if r \<in> {0x2C, 0x3B, 0x3F, 0x28, 0x29} then r + 0xFEE0
         else if r = 0x3A \<and> \<not> spec_flanked tbl rs i then 0xFF1A
         else r)"
proof -
  have "(i < length rs - 1) = (i + 1 < length rs)" by auto
  then show ?thesis
    unfolding substitute_def spec_flanked_def Let_def by auto
qed

lemma spec_normalize_convert_runes: "spec_normalize tbl rs = convert_runes tbl rs"
  unfolding spec_normalize_def convert_runes_def
  by (rule map_cong [OF refl]) (simp add: skip_mask_spec substitute_spec Let_def)

section \<open>The punctuation conversion: contract and idempotence\<close>

lemma convertPunctuation_example_1:
  "convertPunctuation tbl ''a,b?c''
   = [CHR ''a'', CHR 0xEF, CHR 0xBC, CHR 0x8C, CHR ''b'', CHR 0xEF, CHR 0xBC, CHR 0x9F, CHR ''c'']"
  by (simp add: cp_eval)

lemma convertPunctuation_example_2: "convertPunctuation tbl ''12:30'' = ''12:30''"
  by (simp add: cp_eval)

lemma convertPunctuation_example_3:
  "convertPunctuation tbl ([CHR 0xE8, CHR 0xA7, CHR 0x81] @ '' http://a.com/x,y'')
   = [CHR 0xE8, CHR 0xA7, CHR 0x81] @ '' http://a.com/x,y''"
  by (simp add: cp_eval)

lemma convertPunctuation_spec:
  assumes "list_all valid_rune rs"
  shows "convertPunctuation tbl (encode_runes rs) = encode_runes (spec_normalize tbl rs)"
  unfolding spec_normalize_convert_runes by (rule convertPunctuation_runes [OF assms])

text \<open>
  Claim C3, as stated, at the text \<open>http://a\<close>, U+3000 (the ideographic space),
  \<open>b,c\<close>.  The URL pattern ends a URL at a character of the class \<open>\s\<close>, which has
  the tab, the line feed, the form feed, the carriage return and the space only: the
  ideographic space does not end the URL, the span is the whole text, bytes 0 to 14,
  and the comma after the space is kept.
\<close>

theorem convertPunctuation_ideographic_space_counterexample:
  "decode [CHR 0xE3, CHR 0x80, CHR 0x80] = [(0x3000, 3)]
   \<and> FindAllStringIndex urlPattern 0
        (decode (''http://a'' @ [CHR 0xE3, CHR 0x80, CHR 0x80] @ ''b,c'')) = [(0, 14)]
   \<and> convertPunctuation (\<lambda>r. False) (''http://a'' @ [CHR 0xE3, CHR 0x80, CHR 0x80] @ ''b,c'')
       = ''http://a'' @ [CHR 0xE3, CHR 0x80, CHR 0x80] @ ''b,c''"
  by (simp add: cp_eval)

text \<open>
  Claim C3, amended: whitespace is the class \<open>\s\<close> of the pattern.  For every text,
  given by its characters \<open>rs\<close> (Unicode scalar values) and encoded in UTF-8,
  \<open>convertPunctuation\<close> returns the encoding of \<open>spec_normalize\<close>: each comma,
  semicolon, question mark and parenthesis outside the excluded spans becomes its
  full-width form, each colon outside them becomes the full-width colon unless digits
  stand immediately on both sides, and every other character, and every character
  inside a URL span or a marker span, is unchanged.  The three examples of the claim
  follow: \<open>a,b?c\<close> becomes \<open>a\<close>, U+FF0C, \<open>b\<close>, U+FF1F, \<open>c\<close>; \<open>12:30\<close> is unchanged;
  and in U+89C1 followed by \<open> http://a.com/x,y\<close> nothing changes.
\<close>

theorem convertPunctuation_contract:
  assumes "list_all valid_rune rs"
  shows "convertPunctuation tbl (encode_runes rs) = encode_runes (spec_normalize tbl rs)
    \<and> convertPunctuation tbl ''a,b?c''
        = [CHR ''a'', CHR 0xEF, CHR 0xBC, CHR 0x8C, CHR ''b'', CHR 0xEF, CHR 0xBC, CHR 0x9F, CHR ''c'']
    \<and> convertPunctuation tbl ''12:30'' = ''12:30''
    \<and> convertPunctuation tbl ([CHR 0xE8, CHR 0xA7, CHR 0x81] @ '' http://a.com/x,y'')
        = [CHR 0xE8, CHR 0xA7, CHR 0x81] @ '' http://a.com/x,y''"
  using convertPunctuation_spec [OF assms] convertPunctuation_example_1
    convertPunctuation_example_2 convertPunctuation_example_3
  by (intro conjI)

theorem convertPunctuation_contract_witness:
  "convertPunctuation (\<lambda>r. False) ''(1:2) {a,b};''
   = [CHR 0xEF, CHR 0xBC, CHR 0x88] @ ''1:2'' @ [CHR 0xEF, CHR 0xBC, CHR 0x89] @ '' {a,b}''
       @ [CHR 0xEF, CHR 0xBC, CHR 0x9B]"
proof -
  define rs :: "rune list" where
    "rs = [0x28, 0x31, 0x3A, 0x32, 0x29, 0x20, 0x7B, 0x61, 0x2C, 0x62, 0x7D, 0x3B]"
  have a: "list_all valid_rune rs" by (simp add: rs_def valid_rune_def)
  have b: "encode_runes rs = ''(1:2) {a,b};''"
    by (simp add: rs_def encode_runes_def EncodeRune_def char_of_eq_iff)
  have c: "convert_runes (\<lambda>r. False) rs
           = [0xFF08, 0x31, 0x3A, 0x32, 0xFF09, 0x20, 0x7B, 0x61, 0x2C, 0x62, 0x7D, 0xFF1B]"
    by (simp add: rs_def convert_runes_def skip_mask_def substitute_def urlPattern_def
        markerPattern_def match_scheme_def runes_of_ascii_def re_space_def IsDigit_def Let_def)
  have d: "encode_runes [0xFF08, 0x31, 0x3A, 0x32, 0xFF09, 0x20, 0x7B, 0x61, 0x2C, 0x62, 0x7D, 0xFF1B]
           = [CHR 0xEF, CHR 0xBC, CHR 0x88] @ ''1:2'' @ [CHR 0xEF, CHR 0xBC, CHR 0x89] @ '' {a,b}''
               @ [CHR 0xEF, CHR 0xBC, CHR 0x9B]"
    by (simp add: encode_runes_def EncodeRune_def char_of_eq_iff)
  show ?thesis
    using convertPunctuation_contract [OF a, of "\<lambda>r. False", THEN conjunct1]
    unfolding b spec_normalize_convert_runes c d .
qed

text \<open>
  Idempotence on well-formed UTF-8: the excluded spans of the converted text are those
  of the text, and a converted code point is converted to itself.
\<close>

lemma convertPunctuation_idempotent_wellformed:
  assumes "list_all valid_rune rs"
  shows "convertPunctuation tbl (convertPunctuation tbl (encode_runes rs))
         = convertPunctuation tbl (encode_runes rs)"
proof -
  have "convertPunctuation tbl (convertPunctuation tbl (encode_runes rs))
        = convertPunctuation tbl (encode_runes (convert_runes tbl rs))"
    by (simp only: convertPunctuation_runes [OF assms])
  also have "\<dots> = encode_runes (convert_runes tbl (convert_runes tbl rs))"
    by (rule convertPunctuation_runes [OF convert_runes_valid [OF assms]])
  also have "\<dots> = encode_runes (convert_runes tbl rs)"
    by (simp only: convert_runes_idem)
  also have "\<dots> = convertPunctuation tbl (encode_runes rs)"
    by (simp only: convertPunctuation_runes [OF assms])
  finally show ?thesis .
qed

text \<open>
  Claim C4 at the text \<open>0xFF\<close>, comma, \<open>{ab}\<close>.  The byte \<open>0xFF\<close> is read as U+FFFD,
  so \<open>len(string(runes[:1]))\<close> is 3 while the comma stands at byte 1; byte 3 lies in the
  marker span, bytes 2 to 6, and the comma is kept.  In the result the comma stands at
  byte 3 and the marker begins at byte 4: the second conversion replaces the comma.
\<close>

theorem convertPunctuation_not_idempotent:
  "convertPunctuation tbl ([CHR 0xFF] @ '',{ab}'') = [CHR 0xEF, CHR 0xBF, CHR 0xBD] @ '',{ab}''
   \<and> convertPunctuation tbl (convertPunctuation tbl ([CHR 0xFF] @ '',{ab}''))
       = [CHR 0xEF, CHR 0xBF, CHR 0xBD, CHR 0xEF, CHR 0xBC, CHR 0x8C] @ ''{ab}''"
proof -
  have 1: "convertPunctuation tbl ([CHR 0xFF] @ '',{ab}'')
           = [CHR 0xEF, CHR 0xBF, CHR 0xBD] @ '',{ab}''"
    by (simp add: cp_eval)
  have 2: "convertPunctuation tbl ([CHR 0xEF, CHR 0xBF, CHR 0xBD] @ '',{ab}'')
           = [CHR 0xEF, CHR 0xBF, CHR 0xBD, CHR 0xEF, CHR 0xBC, CHR 0x8C] @ ''{ab}''"
    by (simp add: cp_eval)
  show ?thesis unfolding 1 2 by simp
qed

end
